theory Spec2Isabelle
  imports Complex_Main "HOL-Library.Word"
begin

unbundle bit_operations_syntax

section \<open>Common Python and NumPy notions\<close>

text \<open>
  Exceptions of the Python sources, as values. Samples are Python floats in the sources;
  they are modelled as reals (exact arithmetic, no NaN or infinity, no rounding error).
\<close>

datatype py_error =
    KeyError
  | ZeroDivisionError
  | IndexError
  | ValueError string
  | StructError
  | OverflowError

type_synonym byte = "8 word"

text \<open>Python's \<open>int(x)\<close> on a float: truncation toward zero.\<close>

definition py_int :: "real \<Rightarrow> int" where
  "py_int x = (if 0 \<le> x then \<lfloor>x\<rfloor> else \<lceil>x\<rceil>)"

text \<open>\<open>np.diff\<close> on a one-dimensional array: consecutive differences.\<close>

fun np_diff :: "'a::minus list \<Rightarrow> 'a list" where
  "np_diff (x # y # xs) = (y - x) # np_diff (y # xs)"
| "np_diff xs = []"

section \<open>delta\_encoder.py: the variable-width delta codec\<close>

subsection \<open>DeltaEncoder.\_\_init\_\_\<close>

definition small_delta_threshold :: real where
  "small_delta_threshold = 0.01"

definition medium_delta_threshold :: real where
  "medium_delta_threshold = 0.1"

definition quantization_levels :: "int \<rightharpoonup> int" where
  "quantization_levels = [4 \<mapsto> 16, 8 \<mapsto> 256, 12 \<mapsto> 4096]"

subsection \<open>DeltaEncoder.quantize\_delta\<close>

text \<open>
  The dictionary lookup \<open>self.quantization_levels[bits]\<close> raises \<open>KeyError\<close> for a
  missing key; \<open>//\<close> is floor division; \<open>int(...)\<close> truncates toward zero.
  The product \<open>delta * max_val\<close> is taken over the reals here. The binary64 product
  of the code is the subject of \<open>quantize_delta_float64\<close> below; the two functions
  agree unless the exact product overflows binary64 or lies within \<open>2 ^ -43\<close> below an
  integer in magnitude (lemma \<open>quantize_delta_float64_exact\<close>).
\<close>

definition quantize_delta :: "real \<Rightarrow> int \<Rightarrow> py_error + int" where
  "quantize_delta delta bits =
     (case quantization_levels bits of
        None \<Rightarrow> Inl KeyError
      | Some levels \<Rightarrow>
          (let max_val = levels div 2 - 1;
               min_val = - max_val - 1;
               scaled = py_int (delta * real_of_int max_val / 1.0)
           in Inr (max min_val (min max_val scaled))))"

subsection \<open>DeltaEncoder.compress\_audio\_delta\<close>

text \<open>
  The tags \<open>'reference'\<close>, \<open>'small'\<close>, \<open>'medium'\<close>, \<open>'large'\<close> of the encoded
  entries; an entry is the tuple \<open>(entry_type, bits, value)\<close>.
\<close>

datatype entry_type = Reference | Small | Medium | Large

type_synonym entry = "entry_type \<times> int \<times> int"

text \<open>
  The \<open>if\<close>/\<open>elif\<close>/\<open>else\<close> chain of the encoding loop picks the tag and the bit
  width of one delta: the tier of the delta.
\<close>

definition classify :: "real \<Rightarrow> entry_type \<times> int" where
  "classify delta =
     (let abs_delta = \<bar>delta\<bar>
      in if abs_delta < small_delta_threshold then (Small, 4)
         else if abs_delta < medium_delta_threshold then (Medium, 8)
         else (Large, 12))"

text \<open>The body of the encoding loop: one delta becomes one entry.\<close>

definition encode_delta :: "real \<Rightarrow> py_error + entry" where
  "encode_delta delta =
     (case classify delta of
        (entry_type, bits) \<Rightarrow>
          (case quantize_delta delta bits of
             Inl e \<Rightarrow> Inl e
           | Inr quantized \<Rightarrow> Inr (entry_type, bits, quantized)))"

fun encode_deltas :: "real list \<Rightarrow> py_error + entry list" where
  "encode_deltas [] = Inr []"
| "encode_deltas (delta # deltas) =
     (case encode_delta delta of
        Inl e \<Rightarrow> Inl e
      | Inr entry \<Rightarrow>
          (case encode_deltas deltas of
             Inl e \<Rightarrow> Inl e
           | Inr entries \<Rightarrow> Inr (entry # entries)))"

record compression_info =
  original_samples :: nat
  delta_samples :: nat
  original_bits :: nat
  compressed_bits :: int
  compression_ratio :: real
  small_deltas_count :: nat
  medium_deltas_count :: nat
  large_deltas_count :: nat

record decoder_params =
  first_sample :: int
  small_threshold :: real
  medium_threshold :: real
  levels :: "int \<rightharpoonup> int"

record encoded_result =
  encoded_data :: "entry list"
  info :: compression_info
  params :: decoder_params

text \<open>
  The three progress lines printed after the masks divide by \<open>len(deltas)\<close>; Python's
  \<open>/\<close> on two ints raises \<open>ZeroDivisionError\<close> when there is no delta, which is
  before \<open>audio[0]\<close> is read. The final \<open>original_bits / total_bits\<close> divides by at
  least the 16 bits of the reference entry.
\<close>

definition compress_audio_delta :: "real list \<Rightarrow> py_error + encoded_result" where
  "compress_audio_delta audio =
     (let deltas = np_diff audio;
          small_deltas = filter (\<lambda>d. \<bar>d\<bar> < small_delta_threshold) deltas;
          medium_deltas = filter (\<lambda>d. \<bar>d\<bar> \<ge> small_delta_threshold
                                      \<and> \<bar>d\<bar> < medium_delta_threshold) deltas;
          large_deltas = filter (\<lambda>d. \<bar>d\<bar> \<ge> medium_delta_threshold) deltas
      in if length deltas = 0 then Inl ZeroDivisionError
         else
           (case audio of
              [] \<Rightarrow> Inl IndexError
            | a0 # _ \<Rightarrow>
                (let first = py_int (a0 * 32767)
                 in case encode_deltas deltas of
                      Inl e \<Rightarrow> Inl e
                    | Inr entries \<Rightarrow>
                        (let data = (Reference, 16, first) # entries;
                             total_bits = sum_list (map (\<lambda>(_, bits, _). bits) data);
                             orig_bits = length audio * 16
                         in Inr \<lparr> encoded_data = data,
                                  info = \<lparr> original_samples = length audio,
                                           delta_samples = length deltas,
                                           original_bits = orig_bits,
                                           compressed_bits = total_bits,
                                           compression_ratio =
                                             real orig_bits / real_of_int total_bits,
                                           small_deltas_count = length small_deltas,
                                           medium_deltas_count = length medium_deltas,
                                           large_deltas_count = length large_deltas \<rparr>,
                                  params = \<lparr> first_sample = first,
                                             small_threshold = small_delta_threshold,
                                             medium_threshold = medium_delta_threshold,
                                             levels = quantization_levels \<rparr> \<rparr>))))"

subsection \<open>DeltaEncoder.pack\_encoded\_data\<close>



text \<open>
  The state of the packing loop is the file written so far, \<open>bit_buffer\<close> and
  \<open>bits_in_buffer\<close>. Python integers are unbounded, \<open>&\<close> on a negative value works on
  its two's complement, \<open>>>\<close> is the arithmetic shift: the operations of \<open>int\<close>.
  The inner \<open>while\<close> loop writes the complete bytes.
\<close>

function flush_complete_bytes :: "byte list \<times> int \<times> int \<Rightarrow> byte list \<times> int \<times> int" where
  "flush_complete_bytes (f, bit_buffer, bits_in_buffer) =
     (if bits_in_buffer \<ge> 8
      then flush_complete_bytes
             (f @ [word_of_int (bit_buffer AND 0xFF)], drop_bit 8 bit_buffer, bits_in_buffer - 8)
      else (f, bit_buffer, bits_in_buffer))"
  by pat_completeness auto
termination
  by (relation "measure (\<lambda>(f, bit_buffer, bits_in_buffer). nat bits_in_buffer)") auto

declare flush_complete_bytes.simps [simp del]

text \<open>
  The body of the \<open>for\<close> loop. \<open>1 << bits\<close> raises \<open>ValueError\<close> for a negative shift
  count.
\<close>

definition pack_entry :: "byte list \<times> int \<times> int \<Rightarrow> entry \<Rightarrow> py_error + byte list \<times> int \<times> int" where
  "pack_entry st entry =
     (case st of (f, bit_buffer, bits_in_buffer) \<Rightarrow>
        (case entry of (entry_type, bits, v) \<Rightarrow>
           if bits < 0 then Inl (ValueError ''negative shift count'')
           else Inr (flush_complete_bytes
                  (f,
                   bit_buffer OR push_bit (nat bits_in_buffer) (v AND (push_bit (nat bits) 1 - 1)),
                   bits_in_buffer + bits))))"

fun pack_entries :: "byte list \<times> int \<times> int \<Rightarrow> entry list \<Rightarrow> py_error + byte list \<times> int \<times> int" where
  "pack_entries st [] = Inr st"
| "pack_entries st (entry # entries) =
     (case pack_entry st entry of
        Inl e \<Rightarrow> Inl e
      | Inr st' \<Rightarrow> pack_entries st' entries)"


text \<open>
  The bit packer on its own: the packing loop and the final flush of
  \<open>pack_encoded_data\<close>, run on an output that is empty at the start. It gives the
  packed bitstream of a list of entries.
\<close>

definition pack :: "entry list \<Rightarrow> py_error + byte list" where
  "pack entries =
     (case pack_entries ([], 0, 0) entries of
        Inl e \<Rightarrow> Inl e
      | Inr (f, bit_buffer, bits_in_buffer) \<Rightarrow>
          Inr (if bits_in_buffer > 0 then f @ [word_of_int (bit_buffer AND 0xFF)] else f))"

subsection \<open>DeltaEncoder.decode\_delta\_data\<close>

text \<open>
  The loop over \<open>encoded_data[1:]\<close>; \<open>reconstructed\<close> is never empty, so
  \<open>reconstructed[-1]\<close> is its last element. \<open>max_val\<close> is 7, 127 or 2047, so the
  division does not raise.
\<close>

fun decode_entries :: "real list \<Rightarrow> entry list \<Rightarrow> py_error + real list" where
  "decode_entries reconstructed [] = Inr reconstructed"
| "decode_entries reconstructed ((entry_type, bits, quantized_delta) # entries) =
     (case quantization_levels bits of
        None \<Rightarrow> Inl KeyError
      | Some lv \<Rightarrow>
          (let max_val = lv div 2 - 1;
               delta = real_of_int quantized_delta / real_of_int max_val;
               next_sample = last reconstructed + delta
           in decode_entries (reconstructed @ [next_sample]) entries))"

definition decode_delta_data :: "encoded_result \<Rightarrow> py_error + real list" where
  "decode_delta_data r =
     decode_entries [real_of_int (first_sample (params r)) / 32767.0] (drop 1 (encoded_data r))"

subsection \<open>process\_audio\_file\<close>


definition compress_and_decode :: "real list \<Rightarrow> py_error + real list" where
  "compress_and_decode audio =
     (case compress_audio_delta audio of
        Inl e \<Rightarrow> Inl e
      | Inr compressed_result \<Rightarrow> decode_delta_data compressed_result)"

subsection \<open>The bit unpacker\<close>

datatype codec_error = BadMagic | TruncatedStream | EmptyInput

text \<open>
  Modelled from the spec: the repository has no bit unpacker (its decoder is handed the
  entry list in memory), so \<open>unpack\<close> follows section 4.3 of the specification: the same
  accumulator and bit count as the packer, bytes pulled from the buffer as needed to
  satisfy each requested width, \<open>TruncatedStream\<close> when the buffer is exhausted before
  all requested widths are satisfied.
\<close>

fun pull_bytes :: "int \<Rightarrow> int \<Rightarrow> int \<Rightarrow> byte list \<Rightarrow> codec_error + int \<times> int \<times> byte list" where
  "pull_bytes width acc bit_count buffer =
     (if bit_count \<ge> width then Inr (acc, bit_count, buffer)
      else (case buffer of
              [] \<Rightarrow> Inl TruncatedStream
            | b # rest \<Rightarrow>
                pull_bytes width (acc OR push_bit (nat bit_count) (uint b)) (bit_count + 8) rest))"

declare pull_bytes.simps [simp del]

fun unpack_from :: "int \<Rightarrow> int \<Rightarrow> byte list \<Rightarrow> int list \<Rightarrow> codec_error + int list" where
  "unpack_from acc bit_count buffer [] = Inr []"
| "unpack_from acc bit_count buffer (width # widths) =
     (case pull_bytes width acc bit_count buffer of
        Inl e \<Rightarrow> Inl e
      | Inr (acc', bit_count', buffer') \<Rightarrow>
          (case unpack_from (drop_bit (nat width) acc') (bit_count' - width) buffer' widths of
             Inl e \<Rightarrow> Inl e
           | Inr codes \<Rightarrow> Inr ((acc' AND (push_bit (nat width) 1 - 1)) # codes)))"

definition unpack :: "byte list \<Rightarrow> int list \<Rightarrow> codec_error + int list" where
  "unpack buffer widths = unpack_from 0 0 buffer widths"

section \<open>gba\_optimized\_codec.py: the fixed-width 8-bit codec\<close>

text \<open>
  \<open>gba_optimized_compression\<close> loads and resamples a file, encodes it, and decodes the
  written file again. The model starts from the resampled mono samples. The dither drawn
  by \<open>np.random.triangular(-0.5, 0, 0.5, size=n)\<close> comes from NumPy's global
  generator, which the file never seeds and every call advances; it is an input of the
  model: \<open>dither i\<close> is the \<open>i\<close>-th value drawn by the call. NumPy scalar arithmetic is the one of
  NumPy 2: the sum of two \<open>int8\<close> values, or of a Python int and an \<open>int8\<close> value, is
  an \<open>int8\<close> value and wraps around.
\<close>

text \<open>\<open>np.round\<close>: to the nearest integer, a tie to the even one.\<close>

definition np_round :: "real \<Rightarrow> int" where
  "np_round x =
     (let f = \<lfloor>x\<rfloor>; r = x - real_of_int f
      in if r < 1 / 2 then f
         else if r > 1 / 2 then f + 1
         else if even f then f else f + 1)"

definition np_clip :: "int \<Rightarrow> int \<Rightarrow> int \<Rightarrow> int" where
  "np_clip x a_min a_max = min (max x a_min) a_max"

text \<open>\<open>np.max\<close> and \<open>np.min\<close> raise \<open>ValueError\<close> on an empty array.\<close>

definition np_max :: "real list \<Rightarrow> py_error + real" where
  "np_max xs =
     (case xs of
        [] \<Rightarrow> Inl (ValueError ''zero-size array to reduction operation'')
      | x # rest \<Rightarrow> Inr (fold max rest x))"

definition target_sr :: int where
  "target_sr = 6750"

text \<open>The magic bytes \<open>b'FQWT'\<close>.\<close>

definition magic_FQWT :: "byte list" where
  "magic_FQWT = [0x46, 0x51, 0x57, 0x54]"

text \<open>\<open>np.array([n], dtype=np.uint32).tobytes()\<close>, little-endian.\<close>

definition uint32_tobytes :: "int \<Rightarrow> py_error + byte list" where
  "uint32_tobytes n =
     (if 0 \<le> n \<and> n < 2 ^ 32
      then Inr (map (\<lambda>k. word_of_int (drop_bit (8 * k) n)) [0, 1, 2, 3])
      else Inl OverflowError)"

text \<open>Steps 1 and 2: peak scaling, dither, rounding and clipping to \<open>int8\<close>.\<close>

definition quantize_8bit :: "real list \<Rightarrow> (nat \<Rightarrow> real) \<Rightarrow> py_error + int list" where
  "quantize_8bit audio_resampled dither =
     (case np_max (map abs audio_resampled) of
        Inl e \<Rightarrow> Inl e
      | Inr audio_peak \<Rightarrow>
          (let audio_scaled =
                 (if audio_peak > 0
                  then map (\<lambda>x. x * (121.0 / audio_peak)) audio_resampled
                  else map (\<lambda>x. x * 127.0) audio_resampled);
               audio_dithered =
                 map (\<lambda>(x, d). x + d)
                   (zip audio_scaled (map dither [0 ..< length audio_scaled]))
           in Inr (map (\<lambda>x. np_clip (np_round x) (- 128) 127) audio_dithered)))"

text \<open>
  Step 3 and the written file. The line that prints the delta range takes
  \<open>np.min(deltas)\<close>, which raises for an array without elements.
\<close>

definition gba_encode :: "real list \<Rightarrow> (nat \<Rightarrow> real) \<Rightarrow> py_error + byte list" where
  "gba_encode audio_resampled dither =
     (case quantize_8bit audio_resampled dither of
        Inl e \<Rightarrow> Inl e
      | Inr audio_8bit \<Rightarrow>
          (let deltas = map (\<lambda>d. np_clip d (- 128) 127) (np_diff audio_8bit)
           in case audio_8bit of
                [] \<Rightarrow> Inl IndexError
              | first # _ \<Rightarrow>
                  if deltas = [] then Inl (ValueError ''zero-size array to reduction operation'')
                  else
                    (case uint32_tobytes target_sr of
                       Inl e \<Rightarrow> Inl e
                     | Inr rate_bytes \<Rightarrow>
                         (case uint32_tobytes (int (length deltas)) of
                            Inl e \<Rightarrow> Inl e
                          | Inr count_bytes \<Rightarrow>
                              Inr (magic_FQWT @ rate_bytes @ count_bytes
                                   @ [word_of_int first] @ map word_of_int deltas)))))"

text \<open>
  \<open>np.frombuffer(data, dtype=np.uint32)[0]\<close> and the same for \<open>np.int8\<close>:
  \<open>ValueError\<close> when the size of the data is not a multiple of the element size,
  \<open>IndexError\<close> when there is no element.
\<close>

definition frombuffer_uint32_0 :: "byte list \<Rightarrow> py_error + int" where
  "frombuffer_uint32_0 data =
     (if length data mod 4 \<noteq> 0
      then Inl (ValueError ''buffer size must be a multiple of element size'')
      else (case data of
              b0 # b1 # b2 # b3 # _ \<Rightarrow>
                Inr (uint b0 + 2 ^ 8 * uint b1 + 2 ^ 16 * uint b2 + 2 ^ 24 * uint b3)
            | _ \<Rightarrow> Inl IndexError))"

definition frombuffer_int8_0 :: "byte list \<Rightarrow> py_error + int" where
  "frombuffer_int8_0 data = (case data of [] \<Rightarrow> Inl IndexError | b # _ \<Rightarrow> Inr (sint b))"

text \<open>The sum of two \<open>int8\<close> values, wrapped into \<open>[-128, 127]\<close>.\<close>

definition int8_add :: "int \<Rightarrow> int \<Rightarrow> int" where
  "int8_add a b = (a + b + 128) mod 256 - 128"

text \<open>The reconstruction loop.\<close>

fun reconstruct :: "int \<Rightarrow> int list \<Rightarrow> int list \<Rightarrow> int list" where
  "reconstruct current_sample reconstructed [] = reconstructed"
| "reconstruct current_sample reconstructed (delta # deltas) =
     (let next_sample = int8_add current_sample delta;
          next_sample = max (- 128) (min 127 next_sample)
      in reconstruct next_sample (reconstructed @ [next_sample]) deltas)"

text \<open>
  The test decode of the written file: \<open>f.read(n)\<close> takes up to \<open>n\<close> bytes,
  \<open>f.read()\<close> the rest. The result is the sample rate and \<open>reconstructed_audio\<close>.
\<close>

definition gba_decode :: "byte list \<Rightarrow> py_error + int \<times> real list" where
  "gba_decode file =
     (let magic = take 4 file; file1 = drop 4 file
      in if magic \<noteq> magic_FQWT then Inl (ValueError ''Bad magic'')
         else
           (case frombuffer_uint32_0 (take 4 file1) of
              Inl e \<Rightarrow> Inl e
            | Inr sample_rate \<Rightarrow>
                (case frombuffer_uint32_0 (take 4 (drop 4 file1)) of
                   Inl e \<Rightarrow> Inl e
                 | Inr num_deltas \<Rightarrow>
                     (case frombuffer_int8_0 (take 1 (drop 8 file1)) of
                        Inl e \<Rightarrow> Inl e
                      | Inr first \<Rightarrow>
                          (let deltas = map sint (drop 9 file1);
                               reconstructed = reconstruct first [first] deltas;
                               reconstructed_audio =
                                 map (\<lambda>s. real_of_int s / 127.0) (butlast reconstructed)
                           in Inr (sample_rate, reconstructed_audio))))))"

definition gba_optimized_compression :: "real list \<Rightarrow> (nat \<Rightarrow> real) \<Rightarrow> py_error + int \<times> real list" where
  "gba_optimized_compression audio_resampled dither =
     (case gba_encode audio_resampled dither of
        Inl e \<Rightarrow> Inl e
      | Inr file \<Rightarrow> gba_decode file)"

text \<open>
  The draws of \<open>np.random.triangular(-0.5, 0, 0.5, size=n)\<close> lie between the left and
  the right end of the distribution. \<open>dither_of\<close> makes a sequence of draws from a
  list of values.
\<close>

definition triangular_draw :: "(nat \<Rightarrow> real) \<Rightarrow> bool" where
  "triangular_draw dither = (\<forall>i. - 0.5 \<le> dither i \<and> dither i \<le> 0.5)"

definition dither_of :: "real list \<Rightarrow> nat \<Rightarrow> real" where
  "dither_of ds i = (if i < length ds then ds ! i else 0)"

section \<open>The quantizer in the words of the specification\<close>

text \<open>
  Section 4.1 of the specification: \<open>max_val = 2^(bits-1) - 1\<close>,
  \<open>min_val = -max_val - 1\<close>, the delta scaled by \<open>max_val\<close>, rounded to the nearest
  integer and clamped to \<open>[min_val, max_val]\<close>. It is compared with the quantizer of
  the code below.
\<close>

definition quantize_spec :: "real \<Rightarrow> int \<Rightarrow> int" where
  "quantize_spec delta bits =
     (let max_val = 2 ^ nat (bits - 1) - 1;
          min_val = - max_val - 1
      in max min_val (min max_val (round (delta * real_of_int max_val))))"

section \<open>Bitstreams as numbers\<close>

text \<open>
  The number whose binary digits are the bits of a byte list, the first byte being the
  least significant; the width and the code of an entry; the number of bits of a list of
  entries; and the number obtained by laying the codes, each cut to its width, one after
  the other from the least significant bit on.
\<close>

fun le_val :: "byte list \<Rightarrow> int" where
  "le_val [] = 0"
| "le_val (b # bs) = uint b + 256 * le_val bs"

definition entry_width :: "entry \<Rightarrow> int" where
  "entry_width e = fst (snd e)"

definition entry_code :: "entry \<Rightarrow> int" where
  "entry_code e = snd (snd e)"

fun total_bits :: "entry list \<Rightarrow> nat" where
  "total_bits [] = 0"
| "total_bits (e # es) = nat (entry_width e) + total_bits es"

fun cat_val :: "entry list \<Rightarrow> int" where
  "cat_val [] = 0"
| "cat_val (e # es) = take_bit (nat (entry_width e)) (entry_code e) + 2 ^ nat (entry_width e) * cat_val es"

subsection \<open>The binary64 arithmetic of \<open>quantize_delta\<close>\<close>

text \<open>
  The deltas are NumPy \<open>float64\<close> values (\<open>sf.read\<close> returns \<open>float64\<close> samples), so
  the product \<open>delta * max_val\<close> of line 35 is the IEEE 754 binary64 product: the exact
  product rounded to the nearest binary64 value, a tie going to the value with the even
  significand, and a magnitude that rounds to \<open>2 ^ 1024\<close> or more becoming an infinity.
  A binary64 value is given by its exact real value.

  \<open>float64_exponent x\<close> is the exponent of the binade of \<open>x\<close>: \<open>\<lfloor>log\<^sub>2 \<bar>x\<bar>\<rfloor>\<close>, at least
  -1022 (the exponent of the subnormal values) and at most 1024. It is found by halving
  a magnitude from 1 on, and by doubling a smaller one, a bounded number of times.
\<close>

fun float64_exponent_up :: "nat \<Rightarrow> real \<Rightarrow> int" where
  "float64_exponent_up n x =
     (if n = 0 \<or> x < 2 then 0 else 1 + float64_exponent_up (n - 1) (x / 2))"

fun float64_exponent_down :: "nat \<Rightarrow> real \<Rightarrow> int" where
  "float64_exponent_down n x =
     (if n = 0 \<or> 1 \<le> x then 0 else float64_exponent_down (n - 1) (2 * x) - 1)"

declare float64_exponent_up.simps [simp del]
declare float64_exponent_down.simps [simp del]

definition float64_exponent :: "real \<Rightarrow> int" where
  "float64_exponent x =
     (if 1 \<le> \<bar>x\<bar> then float64_exponent_up 1024 \<bar>x\<bar> else float64_exponent_down 1022 \<bar>x\<bar>)"

text \<open>
  Rounding to 53 significant bits: the spacing of the binary64 values in the binade of
  exponent \<open>e\<close> is \<open>2 ^ (e - 52)\<close>, and the nearest multiple of it is taken, a tie
  going to the even multiple.
\<close>

definition float64_round :: "real \<Rightarrow> real" where
  "float64_round x =
     (let e = float64_exponent x
      in real_of_int (np_round (x * 2 powi (52 - e))) * 2 powi (e - 52))"

datatype py_float = Finite real | PosInf | NegInf

definition float64_of_real :: "real \<Rightarrow> py_float" where
  "float64_of_real x =
     (let r = float64_round x
      in if 2 ^ 1024 \<le> r then PosInf else if r \<le> - (2 ^ 1024) then NegInf else Finite r)"

text \<open>The product of two finite binary64 values.\<close>

definition float64_mul :: "real \<Rightarrow> real \<Rightarrow> py_float" where
  "float64_mul a b = float64_of_real (a * b)"

text \<open>
  \<open>int(x)\<close> of a float truncates toward zero and raises \<open>OverflowError\<close> for an
  infinity.
\<close>

definition py_int_float :: "py_float \<Rightarrow> py_error + int" where
  "py_int_float x =
     (case x of
        Finite v \<Rightarrow> Inr (py_int v)
      | PosInf \<Rightarrow> Inl OverflowError
      | NegInf \<Rightarrow> Inl OverflowError)"

text \<open>
  \<open>quantize_delta\<close> with the product of line 35 taken in binary64. \<open>max_val\<close> is at most
  2047 and converts to binary64 exactly; the division by \<open>1.0\<close> changes no value.
\<close>

definition quantize_delta_float64 :: "real \<Rightarrow> int \<Rightarrow> py_error + int" where
  "quantize_delta_float64 delta bits =
     (case quantization_levels bits of
        None \<Rightarrow> Inl KeyError
      | Some n_levels \<Rightarrow>
          (let max_val = n_levels div 2 - 1;
               min_val = - max_val - 1
           in case py_int_float (float64_mul delta (real_of_int max_val)) of
                Inl e \<Rightarrow> Inl e
              | Inr scaled \<Rightarrow> Inr (max min_val (min max_val scaled))))"

section \<open>Properties of the codecs\<close>

subsection \<open>The quantizer and the classifier\<close>

lemma quantization_levels_cases:
  "quantization_levels bits =
     (if bits = 4 then Some 16 else if bits = 8 then Some 256
      else if bits = 12 then Some 4096 else None)"
  by (simp add: quantization_levels_def)



text \<open>
  Claim C4. The tier chosen by the encoding loop is a total function of the delta:
  magnitudes below 0.01 are Small with 4 bits, magnitudes from 0.01 and below 0.1 are
  Medium with 8 bits, magnitudes from 0.1 are Large with 12 bits. The three ranges
  cover all magnitudes without overlap, and each of the boundary values 0.01 and 0.1
  belongs to the higher tier. The loop body encodes every delta with the tier so chosen.
\<close>

theorem classify_partition:
  "(classify delta = (Small, 4)) = (\<bar>delta\<bar> < 0.01)
   \<and> (classify delta = (Medium, 8)) = (0.01 \<le> \<bar>delta\<bar> \<and> \<bar>delta\<bar> < 0.1)
   \<and> (classify delta = (Large, 12)) = (0.1 \<le> \<bar>delta\<bar>)
   \<and> classify delta \<in> {(Small, 4), (Medium, 8), (Large, 12)}
   \<and> classify 0.01 = (Medium, 8) \<and> classify (- 0.01) = (Medium, 8)
   \<and> classify 0.1 = (Large, 12) \<and> classify (- 0.1) = (Large, 12)
   \<and> (\<exists>q. encode_delta delta = Inr (fst (classify delta), snd (classify delta), q))"
  by (auto simp add: classify_def encode_delta_def quantize_delta_def
      quantization_levels_cases Let_def small_delta_threshold_def medium_delta_threshold_def)

theorem classify_partition_witness:
  "classify 0.005 = (Small, 4) \<and> classify (- 0.05) = (Medium, 8) \<and> classify 0.502 = (Large, 12)"
  using classify_partition [of "0.005"] classify_partition [of "- 0.05"]
    classify_partition [of "0.502"]
  by simp

subsection \<open>The concrete scenario of the variable-width codec\<close>

lemmas vw_defs = compress_audio_delta_def encode_delta_def classify_def quantize_delta_def
  quantization_levels_cases py_int_def small_delta_threshold_def medium_delta_threshold_def
  decode_delta_data_def compress_and_decode_def

text \<open>
  Claim C8, as stated, fails in its second part: on the samples
  \<open>[0.0, 0.005, -0.002, 0.5, -0.5]\<close> the decoded value at the first Small-tier step is
  0, which differs from the original 0.005 by more than \<open>1/2047\<close>.
\<close>

theorem scenario_small_step_counterexample:
  "compress_and_decode [0.0, 0.005, - 0.002, 0.5, - 0.5]
     = Inr [0, 0, 0, 1027 / 2047, - (1020 / 2047)]
   \<and> \<not> \<bar>[0, 0, 0, 1027 / 2047, - (1020 / 2047)] ! 1 - (0.005::real)\<bar> \<le> 1 / 2047"
  by (simp add: vw_defs)

text \<open>
  Claim C8, amended. On the samples \<open>[0.0, 0.005, -0.002, 0.5, -0.5]\<close> the four
  deltas are classified Small, Small, Large, Large; both Small-tier deltas get the 4-bit
  code 0, the Large ones the codes 1027 and -2047; the decoded sequence is
  \<open>[0, 0, 0, 1027/2047, -1020/2047]\<close>, so that the two Small-tier steps are
  reconstructed within 0.01, the Small threshold, of the original values (the errors
  are 0.005 and 0.002).
\<close>

theorem scenario_tiers_and_reconstruction:
  "np_diff [0.0, 0.005, - 0.002, 0.5, - 0.5 :: real] = [0.005, - 0.007, 0.502, - 1.0]
   \<and> map classify (np_diff [0.0, 0.005, - 0.002, 0.5, - 0.5])
       = [(Small, 4), (Small, 4), (Large, 12), (Large, 12)]
   \<and> map_sum id encoded_data (compress_audio_delta [0.0, 0.005, - 0.002, 0.5, - 0.5])
       = Inr [(Reference, 16, 0), (Small, 4, 0), (Small, 4, 0),
              (Large, 12, 1027), (Large, 12, - 2047)]
   \<and> compress_and_decode [0.0, 0.005, - 0.002, 0.5, - 0.5]
       = Inr [0, 0, 0, 1027 / 2047, - (1020 / 2047)]
   \<and> \<bar>[0, 0, 0, 1027 / 2047, - (1020 / 2047)] ! 1 - (0.005::real)\<bar> = 0.005
   \<and> \<bar>[0, 0, 0, 1027 / 2047, - (1020 / 2047)] ! 2 - (- 0.002::real)\<bar> = 0.002
   \<and> (0.005::real) < 0.01 \<and> (0.002::real) < 0.01"
  by (simp add: vw_defs)

subsection \<open>The fixed-width decoder\<close>

lemmas gba_defs = gba_encode_def quantize_8bit_def np_max_def np_round_def np_clip_def
  uint32_tobytes_def target_sr_def magic_FQWT_def upt_rec gba_decode_def
  frombuffer_uint32_0_def frombuffer_int8_0_def int8_add_def gba_optimized_compression_def
  dither_of_def

lemma length_reconstruct: "length (reconstruct c acc ds) = length acc + length ds"
  by (induction ds arbitrary: c acc) (simp_all add: Let_def)

text \<open>
  Claim C7, as stated, fails in its second part: a container that declares 5 deltas and
  holds 2 delta bytes is decoded without any failure, into two samples.
\<close>

theorem gba_decode_truncated_counterexample:
  "gba_decode [0x46, 0x51, 0x57, 0x54, 1, 0, 0, 0, 5, 0, 0, 0, 3, 1, 2]
     = Inr (1, [3 / 127, 4 / 127])"
  by (simp add: gba_defs)

lemma frombuffer4: "length data = 4 \<Longrightarrow> \<exists>v. frombuffer_uint32_0 data = Inr v"
  by (auto simp add: frombuffer_uint32_0_def split: list.splits)

lemma frombuffer_short: "length data < 4 \<Longrightarrow> \<exists>e. frombuffer_uint32_0 data = Inl e"
  by (auto simp add: frombuffer_uint32_0_def split: list.splits)

text \<open>
  Claim C7, amended. Decoding a file whose first 4 bytes are not the magic tag fails
  with the \<open>Bad magic\<close> error and reconstructs nothing. The declared delta count is read
  and never compared with the bytes available: a file with the magic tag and its 13
  header bytes is decoded without failure, whatever count it declares, into one sample
  per delta byte present. A file with the magic tag and fewer than 13 bytes fails, and
  reconstructs nothing.
\<close>

theorem gba_decode_failure_modes:
  "(take 4 file \<noteq> magic_FQWT \<longrightarrow> gba_decode file = Inl (ValueError ''Bad magic''))
   \<and> (take 4 file = magic_FQWT \<and> 13 \<le> length file \<longrightarrow>
        (\<exists>rate audio. gba_decode file = Inr (rate, audio) \<and> length audio = length file - 13))
   \<and> (take 4 file = magic_FQWT \<and> length file < 13 \<longrightarrow> (\<exists>e. gba_decode file = Inl e))"
proof (intro conjI impI)
  assume "take 4 file \<noteq> magic_FQWT"
  then show "gba_decode file = Inl (ValueError ''Bad magic'')"
    by (simp add: gba_decode_def)
next
  assume h: "take 4 file = magic_FQWT \<and> 13 \<le> length file"
  obtain r where r: "frombuffer_uint32_0 (take 4 (drop 4 file)) = Inr r"
    using frombuffer4 [of "take 4 (drop 4 file)"] h by auto
  obtain n where n: "frombuffer_uint32_0 (take 4 (drop 4 (drop 4 file))) = Inr n"
    using frombuffer4 [of "take 4 (drop 4 (drop 4 file))"] h by auto
  obtain b bs where b: "take 1 (drop 8 (drop 4 file)) = b # bs"
    using h by (cases "take 1 (drop 8 (drop 4 file))") auto
  show "\<exists>rate audio. gba_decode file = Inr (rate, audio) \<and> length audio = length file - 13"
    using h r n b by (simp add: gba_decode_def frombuffer_int8_0_def length_reconstruct)
next
  assume h: "take 4 file = magic_FQWT \<and> length file < 13"
  show "\<exists>e. gba_decode file = Inl e"
  proof (cases "frombuffer_uint32_0 (take 4 (drop 4 file))")
    case (Inl e)
    then show ?thesis using h by (simp add: gba_decode_def)
  next
    case r: (Inr r)
    show ?thesis
    proof (cases "frombuffer_uint32_0 (take 4 (drop 4 (drop 4 file)))")
      case (Inl e)
      then show ?thesis using h r by (simp add: gba_decode_def)
    next
      case n: (Inr n)
      have "take 4 (drop 8 file) \<noteq> [] \<and> min (length file - 8) 4 mod 4 = 0"
        using n by (auto simp add: frombuffer_uint32_0_def split: if_splits list.splits)
      then have "8 < length file \<and> min (length file - 8) 4 mod 4 = 0"
        by (cases "8 < length file") simp_all
      then have "length file \<ge> 12"
        unfolding min_def by presburger
      then have "take 1 (drop 8 (drop 4 file)) = []" using h by simp
      then show ?thesis using h r n by (simp add: gba_decode_def frombuffer_int8_0_def)
    qed
  qed
qed

theorem gba_decode_failure_modes_witness:
  "take 4 [0x50, 0x47, 0x44, 0x44, 1, 0, 0, 0, 5, 0, 0, 0, 3, 1, 2] \<noteq> magic_FQWT
   \<and> gba_decode [0x50, 0x47, 0x44, 0x44, 1, 0, 0, 0, 5, 0, 0, 0, 3, 1, 2]
       = Inl (ValueError ''Bad magic'')
   \<and> (\<exists>rate audio. gba_decode [0x46, 0x51, 0x57, 0x54, 1, 0, 0, 0, 5, 0, 0, 0, 3, 1, 2]
         = Inr (rate, audio) \<and> length audio = 15 - 13)
   \<and> (\<exists>e. gba_decode [0x46, 0x51, 0x57, 0x54, 1, 0, 0, 0, 5, 0] = Inl e)"
proof -
  have a: "take 4 [0x50, 0x47, 0x44, 0x44, 1, 0, 0, 0, 5, 0, 0, 0, 3, 1, 2] \<noteq> magic_FQWT"
    by (simp add: magic_FQWT_def)
  have b: "take 4 [0x46, 0x51, 0x57, 0x54, 1, 0, 0, 0, 5, 0, 0, 0, 3, 1, 2] = magic_FQWT
      \<and> 13 \<le> length [0x46, 0x51, 0x57, 0x54, 1, 0, 0, 0, 5, 0, 0, 0, 3, 1, 2 :: byte]"
    by (simp add: magic_FQWT_def)
  have c: "take 4 [0x46, 0x51, 0x57, 0x54, 1, 0, 0, 0, 5, 0] = magic_FQWT
      \<and> length [0x46, 0x51, 0x57, 0x54, 1, 0, 0, 0, 5, 0 :: byte] < 13"
    by (simp add: magic_FQWT_def)
  have len: "length [0x46, 0x51, 0x57, 0x54, 1, 0, 0, 0, 5, 0, 0, 0, 3, 1, 2 :: byte] = 15"
    by simp
  show ?thesis
    using a b c
      gba_decode_failure_modes [of "[0x50, 0x47, 0x44, 0x44, 1, 0, 0, 0, 5, 0, 0, 0, 3, 1, 2]"]
      gba_decode_failure_modes [of "[0x46, 0x51, 0x57, 0x54, 1, 0, 0, 0, 5, 0, 0, 0, 3, 1, 2]"]
      gba_decode_failure_modes [of "[0x46, 0x51, 0x57, 0x54, 1, 0, 0, 0, 5, 0]"]
    unfolding len by blast
qed

subsection \<open>Determinism\<close>

lemma triangular_draw_dither_of:
  "triangular_draw (dither_of ds) = (\<forall>x \<in> set ds. - 0.5 \<le> x \<and> x \<le> 0.5)"
proof
  assume t: "triangular_draw (dither_of ds)"
  show "\<forall>x \<in> set ds. - 0.5 \<le> x \<and> x \<le> 0.5"
  proof
    fix x assume "x \<in> set ds"
    then obtain i where i: "i < length ds" "ds ! i = x"
      by (auto simp add: in_set_conv_nth)
    from t have "- 0.5 \<le> dither_of ds i \<and> dither_of ds i \<le> 0.5"
      unfolding triangular_draw_def by blast
    with i show "- 0.5 \<le> x \<and> x \<le> 0.5" by (simp add: dither_of_def)
  qed
next
  assume a: "\<forall>x \<in> set ds. - 0.5 \<le> x \<and> x \<le> 0.5"
  show "triangular_draw (dither_of ds)"
    unfolding triangular_draw_def
  proof
    fix i
    show "- 0.5 \<le> dither_of ds i \<and> dither_of ds i \<le> 0.5"
    proof (cases "i < length ds")
      case True
      then have "ds ! i \<in> set ds" by simp
      with a True show ?thesis by (simp add: dither_of_def)
    next
      case False
      then show ?thesis by (simp add: dither_of_def)
    qed
  qed
qed

text \<open>
  Claim C9, as stated, fails for the fixed-width encoder: the same three samples give
  different bytes under two draws of the dither, both within the range of the
  triangular distribution.
\<close>

theorem gba_encode_dither_counterexample:
  "triangular_draw (dither_of [0, 0, 0]) \<and> triangular_draw (dither_of [0.4, 0.4, 0.4])
   \<and> gba_encode [0.5, - 0.25, 0.1] (dither_of [0, 0, 0])
       = Inr [70, 81, 87, 84, 94, 26, 0, 0, 2, 0, 0, 0, 121, 128, 84]
   \<and> gba_encode [0.5, - 0.25, 0.1] (dither_of [0.4, 0.4, 0.4])
       = Inr [70, 81, 87, 84, 94, 26, 0, 0, 2, 0, 0, 0, 121, 128, 85]
   \<and> gba_encode [0.5, - 0.25, 0.1] (dither_of [0, 0, 0])
       \<noteq> gba_encode [0.5, - 0.25, 0.1] (dither_of [0.4, 0.4, 0.4])"
  by (simp add: gba_defs triangular_draw_dither_of)

lemma quantize_8bit_cong:
  "\<forall>i < length audio. d1 i = d2 i \<Longrightarrow> quantize_8bit audio d1 = quantize_8bit audio d2"
proof -
  assume a: "\<forall>i < length audio. d1 i = d2 i"
  have h: "map d1 [0..<length audio] = map d2 [0..<length audio]" using a by simp
  show ?thesis
    by (simp add: quantize_8bit_def Let_def h split: sum.splits)
qed

subsection \<open>Decoding what the variable-width encoder produced\<close>

lemma length_np_diff: "length (np_diff xs) = length xs - 1"
  by (induction xs rule: np_diff.induct) simp_all

lemma encode_delta_total:
  "\<exists>t b q. encode_delta d = Inr (t, b, q) \<and> b \<in> {4, 8, 12}"
  by (simp add: encode_delta_def classify_def quantize_delta_def quantization_levels_cases
      Let_def)

lemma encode_deltas_total:
  "\<exists>es. encode_deltas ds = Inr es \<and> length es = length ds
     \<and> (\<forall>e \<in> set es. fst (snd e) \<in> {4, 8, 12})"
proof (induction ds)
  case Nil
  show ?case by simp
next
  case (Cons d ds)
  obtain t b q where e: "encode_delta d = Inr (t, b, q)" "b \<in> {4, 8, 12}"
    using encode_delta_total [of d] by blast
  from Cons obtain es where es: "encode_deltas ds = Inr es" "length es = length ds"
    "\<forall>e \<in> set es. fst (snd e) \<in> {4, 8, 12}" by blast
  show ?case using e es by auto
qed

lemma compress_audio_delta_ok:
  assumes "2 \<le> length audio"
  shows "\<exists>r es. compress_audio_delta audio = Inr r
           \<and> encoded_data r = (Reference, 16, py_int (hd audio * 32767)) # es
           \<and> first_sample (params r) = py_int (hd audio * 32767)
           \<and> length es = length audio - 1
           \<and> (\<forall>e \<in> set es. fst (snd e) \<in> {4, 8, 12})"
proof -
  obtain a0 a1 rest where a: "audio = a0 # a1 # rest"
    using assms by (cases audio; cases "tl audio") auto
  have l: "length (np_diff audio) = length audio - 1" by (rule length_np_diff)
  have ne: "np_diff audio = (a1 - a0) # np_diff (a1 # rest)" unfolding a by simp
  obtain es where es: "encode_deltas (np_diff audio) = Inr es"
    "length es = length (np_diff audio)" "\<forall>e \<in> set es. fst (snd e) \<in> {4, 8, 12}"
    using encode_deltas_total [of "np_diff audio"] by blast
  show ?thesis
    using es l unfolding compress_audio_delta_def Let_def ne
    by (simp add: a)
qed

lemma decode_entries_ok:
  assumes "\<forall>e \<in> set es. fst (snd e) \<in> {4, 8, 12}" and "acc \<noteq> []"
  shows "\<exists>recon. decode_entries acc es = Inr recon
           \<and> length recon = length acc + length es
           \<and> take (length acc) recon = acc
           \<and> (\<forall>i < length es.
                 recon ! (length acc + i)
                   = recon ! (length acc + i - 1)
                     + real_of_int (snd (snd (es ! i)))
                       / (2 ^ nat (fst (snd (es ! i)) - 1) - 1))"
  using assms
proof (induction es arbitrary: acc)
  case Nil
  show ?case by simp
next
  case (Cons e es)
  obtain t b q where e: "e = (t, b, q)" by (cases e) auto
  have b: "b \<in> {4, 8, 12}" using Cons.prems(1) e by simp
  define mv :: int where "mv = 2 ^ nat (b - 1) - 1"
  define x where "x = last acc + real_of_int q / real_of_int mv"
  have step: "decode_entries acc (e # es) = decode_entries (acc @ [x]) es"
    using b unfolding e x_def mv_def
    by (auto simp add: quantization_levels_cases Let_def)
  have "\<forall>e \<in> set es. fst (snd e) \<in> {4, 8, 12}" using Cons.prems(1) by simp
  moreover have "acc @ [x] \<noteq> []" by simp
  ultimately obtain recon where r: "decode_entries (acc @ [x]) es = Inr recon"
    "length recon = length (acc @ [x]) + length es"
    "take (length (acc @ [x])) recon = acc @ [x]"
    "\<forall>i < length es. recon ! (length (acc @ [x]) + i)
        = recon ! (length (acc @ [x]) + i - 1)
          + real_of_int (snd (snd (es ! i))) / (2 ^ nat (fst (snd (es ! i)) - 1) - 1)"
    using Cons.IH [of "acc @ [x]"] by blast
  have nth_pre: "\<And>k. k < length acc + 1 \<Longrightarrow> recon ! k = (acc @ [x]) ! k"
  proof -
    fix k assume "k < length acc + 1"
    then have "take (length (acc @ [x])) recon ! k = recon ! k" by simp
    then show "recon ! k = (acc @ [x]) ! k" using r(3) by simp
  qed
  have t: "take (length acc) recon = acc"
  proof -
    have "take (length acc) (take (length (acc @ [x])) recon) = take (length acc) (acc @ [x])"
      using r(3) by simp
    then show ?thesis by (simp add: min_def)
  qed
  have x0: "recon ! length acc = x" using nth_pre [of "length acc"] by simp
  have x1: "recon ! (length acc - 1) = last acc"
    using nth_pre [of "length acc - 1"] Cons.prems(2)
    by (simp add: nth_append last_conv_nth)
  have rec: "\<forall>i < length (e # es).
      recon ! (length acc + i)
        = recon ! (length acc + i - 1)
          + real_of_int (snd (snd ((e # es) ! i)))
            / (2 ^ nat (fst (snd ((e # es) ! i)) - 1) - 1)"
  proof (intro allI impI)
    fix i assume i: "i < length (e # es)"
    show "recon ! (length acc + i)
        = recon ! (length acc + i - 1)
          + real_of_int (snd (snd ((e # es) ! i)))
            / (2 ^ nat (fst (snd ((e # es) ! i)) - 1) - 1)"
    proof (cases i)
      case 0
      then show ?thesis using x0 x1 by (simp add: e x_def mv_def)
    next
      case (Suc j)
      then have "j < length es" using i by simp
      then show ?thesis using r(4) Suc by simp
    qed
  qed
  show ?case
    using step r(1,2) t rec by simp
qed

text \<open>
  For at least two samples the encoder returns a result, and decoding it gives one
  sample per entry: the first is the reference divided by 32767, and every later one is
  its predecessor plus the code of its entry divided by \<open>2^(bits-1) - 1\<close>, without any
  clamping.
\<close>

lemma decode_after_compress:
  assumes "2 \<le> length audio"
  shows "\<exists>r recon. compress_audio_delta audio = Inr r
           \<and> decode_delta_data r = Inr recon
           \<and> compress_and_decode audio = Inr recon
           \<and> length (encoded_data r) = length audio
           \<and> length recon = length audio
           \<and> first_sample (params r) = py_int (audio ! 0 * 32767)
           \<and> recon ! 0 = real_of_int (first_sample (params r)) / 32767
           \<and> (\<forall>i. 0 < i \<and> i < length audio \<longrightarrow>
                 (case encoded_data r ! i of
                    (entry_type, bits, code) \<Rightarrow>
                      bits \<in> {4, 8, 12}
                      \<and> recon ! i = recon ! (i - 1) + real_of_int code / (2 ^ nat (bits - 1) - 1)))"
proof -
  obtain r es where r: "compress_audio_delta audio = Inr r"
    "encoded_data r = (Reference, 16, py_int (hd audio * 32767)) # es"
    "first_sample (params r) = py_int (hd audio * 32767)"
    "length es = length audio - 1"
    "\<forall>e \<in> set es. fst (snd e) \<in> {4, 8, 12}"
    using compress_audio_delta_ok [OF assms] by blast
  define x0 where "x0 = real_of_int (first_sample (params r)) / 32767"
  obtain recon where d: "decode_entries [x0] es = Inr recon"
    "length recon = length [x0] + length es"
    "take (length [x0]) recon = [x0]"
    "\<forall>i < length es. recon ! (length [x0] + i)
        = recon ! (length [x0] + i - 1)
          + real_of_int (snd (snd (es ! i))) / (2 ^ nat (fst (snd (es ! i)) - 1) - 1)"
    using decode_entries_ok [OF r(5), of "[x0]"] by blast
  have dec: "decode_delta_data r = Inr recon"
    using d(1) r(2) by (simp add: decode_delta_data_def x0_def)
  have hd0: "hd audio = audio ! 0" using assms by (cases audio) auto
  have r0: "recon ! 0 = x0"
  proof -
    show ?thesis using d(3) by (cases recon) auto
  qed
  have steps: "\<forall>i. 0 < i \<and> i < length audio \<longrightarrow>
      (case encoded_data r ! i of
         (entry_type, bits, code) \<Rightarrow>
           bits \<in> {4, 8, 12}
           \<and> recon ! i = recon ! (i - 1) + real_of_int code / (2 ^ nat (bits - 1) - 1))"
  proof (intro allI impI)
    fix i assume i: "0 < i \<and> i < length audio"
    then obtain j where j: "i = Suc j" "j < length es" using r(4) by (cases i) auto
    have "es ! j \<in> set es" using j by simp
    then have m: "fst (snd (es ! j)) \<in> {4, 8, 12}" using r(5) by blast
    have "recon ! (1 + j) = recon ! (1 + j - 1)
        + real_of_int (snd (snd (es ! j))) / (2 ^ nat (fst (snd (es ! j)) - 1) - 1)"
      using d(4) j by simp
    then show "case encoded_data r ! i of
         (entry_type, bits, code) \<Rightarrow>
           bits \<in> {4, 8, 12}
           \<and> recon ! i = recon ! (i - 1) + real_of_int code / (2 ^ nat (bits - 1) - 1)"
      using r(2) j m by (auto split: prod.splits)
  qed
  show ?thesis
    using r(1,2,3,4) dec d(2) hd0 r0 steps assms
    by (simp add: compress_and_decode_def x0_def)
qed

text \<open>
  Claim C6 asks for this reconstruction for every non-empty sample sequence. For a
  single sample the encoder has no delta, and the division by \<open>len(deltas)\<close> in its
  progress lines raises: nothing is encoded, so nothing can be decoded.
\<close>

theorem compress_audio_delta_single_sample:
  "compress_audio_delta [0.5] = Inl ZeroDivisionError
   \<and> compress_and_decode [0.5] = Inl ZeroDivisionError"
  by (simp add: compress_audio_delta_def compress_and_decode_def)

subsection \<open>Bit packing\<close>

text \<open>
  The packer and the unpacker are related through the numbers they stand for: the bytes
  written so far together with the bit buffer hold the number \<open>cat_val\<close> of the
  entries packed so far, and the unpacker cuts that number up again.
\<close>

lemma and_255: "(b::int) AND 0xFF = b mod 256"
proof -
  have "b AND 0xFF = take_bit 8 b" by (simp add: take_bit_eq_mask mask_eq_exp_minus_1)
  then show ?thesis by (simp add: take_bit_eq_mod)
qed

lemma and_low_bits: "(v::int) AND (push_bit n 1 - 1) = take_bit n v"
  by (simp add: take_bit_eq_mask mask_eq_exp_minus_1 push_bit_eq_mult)

lemma or_push_bit:
  assumes "0 \<le> b" and "b < 2 ^ n"
  shows "b OR push_bit n c = b + 2 ^ n * (c::int)"
proof -
  have "take_bit n b = b" using assms by (simp add: take_bit_int_eq_self)
  then have "\<forall>k. bit b k \<longrightarrow> k < n" by (metis bit_take_bit_iff)
  then have "\<And>k. \<not> bit b k \<or> \<not> bit (push_bit n c) k"
    by (fastforce simp add: bit_push_bit_iff)
  then have "b + push_bit n c = b OR push_bit n c" by (rule disjunctive_add)
  then show ?thesis by (simp add: push_bit_eq_mult mult.commute)
qed

lemma uint_byte: "uint (word_of_int k :: byte) = k mod 256"
  by (simp add: uint_word_of_int_eq take_bit_eq_mod)

lemma le_val_append: "le_val (xs @ ys) = le_val xs + 2 ^ (8 * length xs) * le_val ys"
  by (induction xs) (simp_all add: algebra_simps power_add)

lemma le_val_nonneg: "0 \<le> le_val bs"
  by (induction bs) simp_all

lemma le_val_less: "le_val bs < 2 ^ (8 * length bs)"
proof (induction bs)
  case Nil
  show ?case by simp
next
  case (Cons b bs)
  have "uint b < 256" using uint_bounded [of b] by simp
  moreover have "le_val bs + 1 \<le> 2 ^ (8 * length bs)" using Cons by simp
  then have "256 * (le_val bs + 1) \<le> 256 * 2 ^ (8 * length bs)" by simp
  ultimately show ?case by (simp add: algebra_simps power_add)
qed

lemma cat_val_nonneg: "0 \<le> cat_val es"
  by (induction es) simp_all

lemma add_shift_less:
  fixes a c :: int
  assumes "a < 2 ^ m" and "c < 2 ^ k"
  shows "a + 2 ^ m * c < 2 ^ (m + k)"
proof -
  have "c + 1 \<le> 2 ^ k" using assms(2) by simp
  then have "2 ^ m * (c + 1) \<le> (2::int) ^ m * 2 ^ k" by (simp add: mult_left_mono)
  then show ?thesis using assms(1) by (simp add: algebra_simps power_add)
qed

lemma cat_val_less: "cat_val es < 2 ^ total_bits es"
proof (induction es)
  case Nil
  show ?case by simp
next
  case (Cons e es)
  have "take_bit (nat (entry_width e)) (entry_code e) < 2 ^ nat (entry_width e)" by simp
  then show ?case using add_shift_less [OF _ Cons] by simp
qed

lemma flush_complete_bytes_value:
  assumes "0 \<le> n" and "0 \<le> b" and "b < 2 ^ nat n"
  shows "\<exists>bs b' n'. flush_complete_bytes (f, b, n) = (f @ bs, b', n')
           \<and> 0 \<le> n' \<and> n' < 8 \<and> n = n' + 8 * int (length bs)
           \<and> 0 \<le> b' \<and> b' < 2 ^ nat n'
           \<and> le_val bs + 2 ^ (8 * length bs) * b' = b"
  using assms
proof (induction "(f, b, n)" arbitrary: f b n rule: flush_complete_bytes.induct)
  case (1 f b n)
  show ?case
  proof (cases "8 \<le> n")
    case False
    then have "flush_complete_bytes (f, b, n) = (f @ [], b, n)"
      by (simp add: flush_complete_bytes.simps)
    moreover have "n = n + 8 * int (length ([]::byte list))" by simp
    moreover have "le_val [] + 2 ^ (8 * length ([]::byte list)) * b = b" by simp
    ultimately show ?thesis using False "1.prems" by (metis not_le)
  next
    case True
    define byte :: byte where "byte = word_of_int (b AND 0xFF)"
    have n8: "nat n = 8 + nat (n - 8)" using True by simp
    have "b < 256 * 2 ^ nat (n - 8)" using "1.prems"(3) n8 by (simp add: power_add)
    then have d: "b div 256 < 2 ^ nat (n - 8)" by simp
    have d0: "0 \<le> b div 256" using "1.prems"(2) by simp
    have "\<exists>bs b' n'.
        flush_complete_bytes (f @ [byte], drop_bit 8 b, n - 8) = ((f @ [byte]) @ bs, b', n')
        \<and> 0 \<le> n' \<and> n' < 8 \<and> n - 8 = n' + 8 * int (length bs)
        \<and> 0 \<le> b' \<and> b' < 2 ^ nat n'
        \<and> le_val bs + 2 ^ (8 * length bs) * b' = drop_bit 8 b"
      unfolding byte_def
      by (rule "1.hyps" [OF True]) (use True d d0 in \<open>simp_all add: drop_bit_eq_div\<close>)
    then obtain bs b' n' where r:
      "flush_complete_bytes (f @ [byte], drop_bit 8 b, n - 8) = ((f @ [byte]) @ bs, b', n')"
      "0 \<le> n'" "n' < 8" "n - 8 = n' + 8 * int (length bs)"
      "0 \<le> b'" "b' < 2 ^ nat n'"
      "le_val bs + 2 ^ (8 * length bs) * b' = drop_bit 8 b"
      by blast
    have u: "uint byte = b mod 256" by (simp add: byte_def uint_byte and_255)
    have v: "le_val (byte # bs) + 2 ^ (8 * length (byte # bs)) * b' = b"
    proof -
      have "le_val (byte # bs) + 2 ^ (8 * length (byte # bs)) * b'
          = b mod 256 + 256 * (le_val bs + 2 ^ (8 * length bs) * b')"
        by (simp add: u algebra_simps power_add)
      also have "\<dots> = b mod 256 + 256 * (b div 256)" by (simp add: r(7) drop_bit_eq_div)
      finally show ?thesis by simp
    qed
    have "flush_complete_bytes (f, b, n) = (f @ (byte # bs), b', n')"
      using True r(1) by (simp add: byte_def flush_complete_bytes.simps [of f b n])
    moreover have "n = n' + 8 * int (length (byte # bs))" using r(4) by simp
    ultimately show ?thesis using r(2,3,5,6) v by blast
  qed
qed

lemma pack_entry_value:
  assumes "0 \<le> n" and "0 \<le> b" and "b < 2 ^ nat n" and "0 \<le> entry_width e"
  shows "\<exists>bs b' n'. pack_entry (f, b, n) e = Inr (f @ bs, b', n')
           \<and> 0 \<le> n' \<and> n' < 8 \<and> n + entry_width e = n' + 8 * int (length bs)
           \<and> 0 \<le> b' \<and> b' < 2 ^ nat n'
           \<and> le_val bs + 2 ^ (8 * length bs) * b'
               = b + 2 ^ nat n * take_bit (nat (entry_width e)) (entry_code e)"
proof -
  obtain t w v where e: "e = (t, w, v)" by (cases e) auto
  have w: "0 \<le> w" using assms(4) by (simp add: e entry_width_def)
  define B where "B = b + 2 ^ nat n * take_bit (nat w) v"
  have buf: "b OR push_bit (nat n) (v AND (push_bit (nat w) 1 - 1)) = B"
    unfolding and_low_bits B_def using assms(2,3) by (rule or_push_bit)
  have nw: "\<not> w < 0" using w by simp
  have p: "pack_entry (f, b, n) e = Inr (flush_complete_bytes (f, B, n + w))"
    unfolding pack_entry_def e prod.case buf using nw by (simp only: if_False)
  have B0: "0 \<le> B" using assms(2) by (simp add: B_def)
  have "take_bit (nat w) v < 2 ^ nat w" by simp
  then have "B < 2 ^ (nat n + nat w)"
    unfolding B_def using assms(3) by (rule add_shift_less [rotated])
  moreover have "nat (n + w) = nat n + nat w" using assms(1) w by simp
  ultimately have B1: "B < 2 ^ nat (n + w)" by simp
  have nw0: "0 \<le> n + w" using assms(1) w by simp
  show ?thesis
    using flush_complete_bytes_value [OF nw0 B0 B1, of f] unfolding p
    by (simp add: e entry_width_def entry_code_def B_def)
qed

lemma pack_entries_value:
  assumes "0 \<le> n" and "0 \<le> b" and "b < 2 ^ nat n"
    and "\<forall>e \<in> set es. 0 \<le> entry_width e"
  shows "\<exists>bs b' n'. pack_entries (f, b, n) es = Inr (f @ bs, b', n')
           \<and> 0 \<le> n' \<and> (n < 8 \<longrightarrow> n' < 8)
           \<and> n + int (total_bits es) = n' + 8 * int (length bs)
           \<and> 0 \<le> b' \<and> b' < 2 ^ nat n'
           \<and> le_val bs + 2 ^ (8 * length bs) * b' = b + 2 ^ nat n * cat_val es"
  using assms
proof (induction es arbitrary: f b n)
  case Nil
  have "pack_entries (f, b, n) [] = Inr (f @ [], b, n)" by simp
  moreover have "le_val [] + 2 ^ (8 * length ([]::byte list)) * b = b + 2 ^ nat n * cat_val []"
    by simp
  moreover have "n + int (total_bits []) = n + 8 * int (length ([]::byte list))" by simp
  ultimately show ?case using Nil.prems by blast
next
  case (Cons e es)
  have we: "0 \<le> entry_width e" using Cons.prems(4) by simp
  obtain bs1 b1 n1 where s1: "pack_entry (f, b, n) e = Inr (f @ bs1, b1, n1)"
    "0 \<le> n1" "n1 < 8" "n + entry_width e = n1 + 8 * int (length bs1)"
    "0 \<le> b1" "b1 < 2 ^ nat n1"
    "le_val bs1 + 2 ^ (8 * length bs1) * b1
       = b + 2 ^ nat n * take_bit (nat (entry_width e)) (entry_code e)"
    using pack_entry_value [OF Cons.prems(1,2,3) we, of f] by blast
  have wes: "\<forall>e \<in> set es. 0 \<le> entry_width e" using Cons.prems(4) by simp
  obtain bs2 b2 n2 where s2: "pack_entries (f @ bs1, b1, n1) es = Inr ((f @ bs1) @ bs2, b2, n2)"
    "0 \<le> n2" "n1 < 8 \<longrightarrow> n2 < 8"
    "n1 + int (total_bits es) = n2 + 8 * int (length bs2)"
    "0 \<le> b2" "b2 < 2 ^ nat n2"
    "le_val bs2 + 2 ^ (8 * length bs2) * b2 = b1 + 2 ^ nat n1 * cat_val es"
    using Cons.IH [OF s1(2,5,6) wes, of "f @ bs1"] by blast
  have run: "pack_entries (f, b, n) (e # es) = Inr (f @ (bs1 @ bs2), b2, n2)"
    using s1(1) s2(1) by simp
  have bits: "n + int (total_bits (e # es)) = n2 + 8 * int (length (bs1 @ bs2))"
    using s1(4) s2(4) we by simp
  have ex: "8 * length bs1 + nat n1 = nat n + nat (entry_width e)"
    using s1(2,4) Cons.prems(1) we by linarith
  have "le_val (bs1 @ bs2) + 2 ^ (8 * length (bs1 @ bs2)) * b2
      = le_val bs1 + 2 ^ (8 * length bs1) * (le_val bs2 + 2 ^ (8 * length bs2) * b2)"
    by (simp add: le_val_append algebra_simps power_add)
  also have "\<dots> = le_val bs1 + 2 ^ (8 * length bs1) * b1
      + 2 ^ (8 * length bs1 + nat n1) * cat_val es"
    unfolding s2(7) by (simp add: algebra_simps power_add)
  also have "\<dots> = b + 2 ^ nat n * take_bit (nat (entry_width e)) (entry_code e)
      + 2 ^ (nat n + nat (entry_width e)) * cat_val es"
    by (simp add: s1(7) ex)
  also have "\<dots> = b + 2 ^ nat n * cat_val (e # es)"
    by (simp add: algebra_simps power_add)
  finally have val: "le_val (bs1 @ bs2) + 2 ^ (8 * length (bs1 @ bs2)) * b2
      = b + 2 ^ nat n * cat_val (e # es)" .
  show ?case using run s2(2,5,6) s1(3) s2(3) bits val by blast
qed

lemma pack_value:
  assumes "\<forall>e \<in> set es. 0 \<le> entry_width e"
  shows "\<exists>bs. pack es = Inr bs \<and> le_val bs = cat_val es
           \<and> total_bits es \<le> 8 * length bs \<and> 8 * length bs < total_bits es + 8"
proof -
  obtain bs b' n' where s: "pack_entries ([], 0, 0) es = Inr ([] @ bs, b', n')"
    "0 \<le> n'" "(0::int) < 8 \<longrightarrow> n' < 8"
    "0 + int (total_bits es) = n' + 8 * int (length bs)"
    "0 \<le> b'" "b' < 2 ^ nat n'"
    "le_val bs + 2 ^ (8 * length bs) * b' = 0 + 2 ^ nat 0 * cat_val es"
    using pack_entries_value [of 0 0 es "[]"] assms by auto
  show ?thesis
  proof (cases "0 < n'")
    case True
    have "b' < 2 ^ 8"
    proof -
      have "nat n' \<le> 8" using s(3) by simp
      then have "(2::int) ^ nat n' \<le> 2 ^ 8" by (rule power_increasing) simp
      then show ?thesis using s(6) by linarith
    qed
    then have u: "uint (word_of_int (b' AND 0xFF) :: byte) = b'"
      using s(5) by (simp add: uint_byte and_255)
    have p: "pack es = Inr (bs @ [word_of_int (b' AND 0xFF)])"
      using s(1) True by (simp add: pack_def)
    have "le_val (bs @ [word_of_int (b' AND 0xFF)]) = cat_val es"
      using s(7) u by (simp add: le_val_append)
    moreover have "total_bits es \<le> 8 * length (bs @ [word_of_int (b' AND 0xFF) :: byte])"
      using s(3,4) by simp
    moreover have "8 * length (bs @ [word_of_int (b' AND 0xFF) :: byte]) < total_bits es + 8"
      using s(4) True by simp
    ultimately show ?thesis using p by blast
  next
    case False
    then have n0: "n' = 0" using s(2) by simp
    then have "b' = 0" using s(5,6) by simp
    then have "le_val bs = cat_val es" using s(7) by simp
    moreover have "pack es = Inr bs" using s(1) n0 by (simp add: pack_def)
    moreover have "total_bits es = 8 * length bs" using s(4) n0 by simp
    ultimately show ?thesis by simp
  qed
qed

lemma take_bit_add_shift:
  fixes a c :: int
  assumes "m \<le> k"
  shows "take_bit m (a + 2 ^ k * c) = take_bit m a"
proof -
  have "(2::int) ^ k = 2 ^ m * 2 ^ (k - m)" using assms by (simp add: power_add [symmetric])
  then have e: "2 ^ k * c = 2 ^ m * (2 ^ (k - m) * c)" by (simp only: mult.assoc)
  show ?thesis unfolding take_bit_eq_mod e by simp
qed

lemma drop_bit_add_shift:
  fixes a c :: int
  assumes "m \<le> k"
  shows "drop_bit m (a + 2 ^ k * c) = drop_bit m a + 2 ^ (k - m) * c"
proof -
  have "(2::int) ^ k = 2 ^ m * 2 ^ (k - m)" using assms by (simp add: power_add [symmetric])
  then have e: "2 ^ k * c = 2 ^ m * (2 ^ (k - m) * c)" by (simp only: mult.assoc)
  show ?thesis unfolding drop_bit_eq_div e by simp
qed

lemma drop_bit_less:
  fixes a :: int
  assumes "a < 2 ^ k" and "m \<le> k"
  shows "drop_bit m a < 2 ^ (k - m)"
proof -
  have "(2::int) ^ k = 2 ^ m * 2 ^ (k - m)" using assms(2) by (simp add: power_add [symmetric])
  then have "a < 2 ^ m * 2 ^ (k - m)" using assms(1) by simp
  moreover have "a = 2 ^ m * (a div 2 ^ m) + a mod 2 ^ m" by simp
  moreover have "0 \<le> a mod 2 ^ m" by simp
  ultimately have "2 ^ m * (a div 2 ^ m) < 2 ^ m * 2 ^ (k - m)" by linarith
  then have "a div 2 ^ m < 2 ^ (k - m)" by simp
  then show ?thesis by (simp add: drop_bit_eq_div)
qed

lemma pull_bytes_value:
  assumes "0 \<le> n" and "0 \<le> acc" and "acc < 2 ^ nat n"
    and "w \<le> n + 8 * int (length buffer)"
  shows "\<exists>acc' n' buffer'. pull_bytes w acc n buffer = Inr (acc', n', buffer')
           \<and> w \<le> n' \<and> 0 \<le> n' \<and> 0 \<le> acc' \<and> acc' < 2 ^ nat n'
           \<and> acc' + 2 ^ nat n' * le_val buffer' = acc + 2 ^ nat n * le_val buffer
           \<and> n' + 8 * int (length buffer') = n + 8 * int (length buffer)"
  using assms
proof (induction buffer arbitrary: acc n)
  case Nil
  then have "pull_bytes w acc n [] = Inr (acc, n, [])" by (simp add: pull_bytes.simps)
  then show ?case using Nil.prems by simp
next
  case (Cons b rest)
  show ?case
  proof (cases "w \<le> n")
    case True
    then have "pull_bytes w acc n (b # rest) = Inr (acc, n, b # rest)"
      by (simp add: pull_bytes.simps)
    then show ?thesis using True Cons.prems by simp
  next
    case False
    define A where "A = acc + 2 ^ nat n * uint b"
    have buf: "acc OR push_bit (nat n) (uint b) = A"
      unfolding A_def using Cons.prems(2,3) by (rule or_push_bit)
    have step: "pull_bytes w acc n (b # rest) = pull_bytes w A (n + 8) rest"
      using False by (simp add: pull_bytes.simps [of w acc n] buf)
    have A0: "0 \<le> A" using Cons.prems(2) by (simp add: A_def)
    have "uint b < 2 ^ 8" using uint_bounded [of b] by simp
    then have "A < 2 ^ (nat n + 8)"
      unfolding A_def using Cons.prems(3) by (rule add_shift_less [rotated])
    moreover have n8: "nat (n + 8) = nat n + 8" using Cons.prems(1) by simp
    ultimately have A1: "A < 2 ^ nat (n + 8)" by simp
    have n0: "0 \<le> n + 8" using Cons.prems(1) by simp
    have w8: "w \<le> (n + 8) + 8 * int (length rest)" using Cons.prems(4) by simp
    obtain acc' n' buffer' where r: "pull_bytes w A (n + 8) rest = Inr (acc', n', buffer')"
      "w \<le> n'" "0 \<le> n'" "0 \<le> acc'" "acc' < 2 ^ nat n'"
      "acc' + 2 ^ nat n' * le_val buffer' = A + 2 ^ nat (n + 8) * le_val rest"
      "n' + 8 * int (length buffer') = (n + 8) + 8 * int (length rest)"
      using Cons.IH [OF n0 A0 A1 w8] by blast
    have "A + 2 ^ nat (n + 8) * le_val rest = acc + 2 ^ nat n * le_val (b # rest)"
      by (simp add: A_def n8 power_add algebra_simps)
    then have v: "acc' + 2 ^ nat n' * le_val buffer' = acc + 2 ^ nat n * le_val (b # rest)"
      using r(6) by simp
    have l: "n' + 8 * int (length buffer') = n + 8 * int (length (b # rest))"
      using r(7) by simp
    show ?thesis using step r(1,2,3,4,5) v l by simp
  qed
qed

lemma unpack_from_value:
  assumes "0 \<le> n" and "0 \<le> acc" and "acc < 2 ^ nat n"
    and "\<forall>e \<in> set es. 0 \<le> entry_width e \<and> 0 \<le> entry_code e
           \<and> entry_code e < 2 ^ nat (entry_width e)"
    and "int (total_bits es) \<le> n + 8 * int (length buffer)"
    and "take_bit (total_bits es) (acc + 2 ^ nat n * le_val buffer) = cat_val es"
  shows "unpack_from acc n buffer (map entry_width es) = Inr (map entry_code es)"
  using assms
proof (induction es arbitrary: acc n buffer)
  case Nil
  show ?case by simp
next
  case (Cons e es)
  define w where "w = entry_width e"
  define c where "c = entry_code e"
  define T where "T = total_bits es"
  have w0: "0 \<le> w" and c0: "0 \<le> c" and c1: "c < 2 ^ nat w"
    using Cons.prems(4) by (simp_all add: w_def c_def)
  have tot: "total_bits (e # es) = nat w + T" by (simp add: w_def T_def)
  have wfit: "w \<le> n + 8 * int (length buffer)"
    using Cons.prems(5) w0 unfolding tot by simp
  obtain acc' n' buffer' where p: "pull_bytes w acc n buffer = Inr (acc', n', buffer')"
    "w \<le> n'" "0 \<le> n'" "0 \<le> acc'" "acc' < 2 ^ nat n'"
    "acc' + 2 ^ nat n' * le_val buffer' = acc + 2 ^ nat n * le_val buffer"
    "n' + 8 * int (length buffer') = n + 8 * int (length buffer)"
    using pull_bytes_value [OF Cons.prems(1,2,3) wfit] by blast
  define X where "X = acc' + 2 ^ nat n' * le_val buffer'"
  have wn: "nat w \<le> nat n'" using p(2) by simp
  have tc: "take_bit (nat w) c = c" using c0 c1 by (simp add: take_bit_int_eq_self)
  have cat: "cat_val (e # es) = c + 2 ^ nat w * cat_val es"
    by (simp add: w_def [symmetric] c_def [symmetric] tc)
  have X: "take_bit (nat w + T) X = c + 2 ^ nat w * cat_val es"
    using Cons.prems(6) unfolding tot cat X_def p(6) .
  have "take_bit (nat w) acc' = take_bit (nat w) X"
    unfolding X_def by (rule take_bit_add_shift [OF wn, symmetric])
  also have "\<dots> = take_bit (nat w) (take_bit (nat w + T) X)"
    by (simp add: take_bit_take_bit)
  also have "\<dots> = take_bit (nat w) c"
    unfolding X using take_bit_add_shift [of "nat w" "nat w" c "cat_val es"] by simp
  finally have "take_bit (nat w) acc' = c" by (simp add: tc)
  then have code: "acc' AND (push_bit (nat w) 1 - 1) = c"
    unfolding and_low_bits .
  define acc2 where "acc2 = drop_bit (nat w) acc'"
  have a0: "0 \<le> acc2" using p(4) by (simp add: acc2_def)
  have nn: "nat (n' - w) = nat n' - nat w" using p(2) w0 by simp
  have a1: "acc2 < 2 ^ nat (n' - w)"
    unfolding acc2_def nn using p(5) wn by (rule drop_bit_less)
  have n2: "0 \<le> n' - w" using p(2) by simp
  have wes: "\<forall>e \<in> set es. 0 \<le> entry_width e \<and> 0 \<le> entry_code e
      \<and> entry_code e < 2 ^ nat (entry_width e)"
    using Cons.prems(4) by simp
  have fit: "int (total_bits es) \<le> (n' - w) + 8 * int (length buffer')"
    using Cons.prems(5) p(7) w0 unfolding tot T_def by simp
  have dX: "acc2 + 2 ^ nat (n' - w) * le_val buffer' = drop_bit (nat w) X"
    unfolding X_def acc2_def nn by (rule drop_bit_add_shift [OF wn, symmetric])
  have "take_bit T (drop_bit (nat w) X) = drop_bit (nat w) (take_bit (T + nat w) X)"
    by (simp add: take_bit_drop_bit)
  also have "\<dots> = drop_bit (nat w) (c + 2 ^ nat w * cat_val es)"
    using X by (simp add: add.commute)
  also have "\<dots> = drop_bit (nat w) c + cat_val es"
    using drop_bit_add_shift [of "nat w" "nat w" c "cat_val es"] by simp
  also have "\<dots> = cat_val es"
    using c0 c1 by (simp add: drop_bit_eq_div)
  finally have val: "take_bit (total_bits es) (acc2 + 2 ^ nat (n' - w) * le_val buffer')
      = cat_val es"
    unfolding dX T_def .
  have rest: "unpack_from acc2 (n' - w) buffer' (map entry_width es) = Inr (map entry_code es)"
    using Cons.IH [OF n2 a0 a1 wes fit val] .
  show ?case
    using p(1) rest code
    by (simp add: w_def [symmetric] c_def [symmetric] acc2_def [symmetric])
qed

lemma unpack_of_payload:
  assumes "\<forall>e \<in> set es. 0 \<le> entry_width e \<and> 0 \<le> entry_code e
           \<and> entry_code e < 2 ^ nat (entry_width e)"
    and "total_bits es \<le> 8 * length buffer"
    and "take_bit (total_bits es) (le_val buffer) = cat_val es"
  shows "unpack buffer (map entry_width es) = Inr (map entry_code es)"
proof -
  have a: "(0::int) \<le> 0" and b: "(0::int) < 2 ^ nat 0" by simp_all
  have c: "int (total_bits es) \<le> 0 + 8 * int (length buffer)" using assms(2) by simp
  have d: "take_bit (total_bits es) (0 + 2 ^ nat 0 * le_val buffer) = cat_val es"
    using assms(3) by simp
  show ?thesis
    unfolding unpack_def by (rule unpack_from_value [OF a a b assms(1) c d])
qed

text \<open>
  Claim C2. For every list of entries whose widths are among 4, 8, 12 and 16 and whose
  codes are unsigned values that fit their widths, the packer returns a byte buffer, and
  unpacking it with the same widths, in order, returns exactly the codes. The buffer has
  fewer than 8 bits beyond the payload, whether or not the payload ends on a byte
  boundary, and those padding bits do not reach any decoded value: every buffer of the
  same length that agrees with the packed one on the payload bits unpacks to the same
  codes.
\<close>

theorem pack_unpack_round_trip:
  assumes "\<forall>e \<in> set entries. entry_width e \<in> {4, 8, 12, 16} \<and> 0 \<le> entry_code e
             \<and> entry_code e < 2 ^ nat (entry_width e)"
  shows "\<exists>bs. pack entries = Inr bs
           \<and> unpack bs (map entry_width entries) = Inr (map entry_code entries)
           \<and> total_bits entries \<le> 8 * length bs \<and> 8 * length bs < total_bits entries + 8
           \<and> (\<forall>bs'. length bs' = length bs
                    \<and> take_bit (total_bits entries) (le_val bs')
                        = take_bit (total_bits entries) (le_val bs)
                  \<longrightarrow> unpack bs' (map entry_width entries) = Inr (map entry_code entries))"
proof -
  have w: "\<forall>e \<in> set entries. 0 \<le> entry_width e" using assms by auto
  have v: "\<forall>e \<in> set entries. 0 \<le> entry_width e \<and> 0 \<le> entry_code e
      \<and> entry_code e < 2 ^ nat (entry_width e)"
    using assms by auto
  obtain bs where bs: "pack entries = Inr bs" "le_val bs = cat_val entries"
    "total_bits entries \<le> 8 * length bs" "8 * length bs < total_bits entries + 8"
    using pack_value [OF w] by blast
  have t: "take_bit (total_bits entries) (cat_val entries) = cat_val entries"
    using cat_val_nonneg [of entries] cat_val_less [of entries]
    by (simp add: take_bit_int_eq_self)
  have payload: "take_bit (total_bits entries) (le_val bs) = cat_val entries"
    using bs(2) t by simp
  have rt: "unpack bs (map entry_width entries) = Inr (map entry_code entries)"
    using v bs(3) payload by (rule unpack_of_payload)
  have pad: "\<forall>bs'. length bs' = length bs
      \<and> take_bit (total_bits entries) (le_val bs') = take_bit (total_bits entries) (le_val bs)
    \<longrightarrow> unpack bs' (map entry_width entries) = Inr (map entry_code entries)"
  proof (intro allI impI)
    fix bs' :: "byte list"
    assume h: "length bs' = length bs
      \<and> take_bit (total_bits entries) (le_val bs') = take_bit (total_bits entries) (le_val bs)"
    have l: "total_bits entries \<le> 8 * length bs'" using h bs(3) by simp
    have p: "take_bit (total_bits entries) (le_val bs') = cat_val entries"
      using h payload by simp
    show "unpack bs' (map entry_width entries) = Inr (map entry_code entries)"
      using v l p by (rule unpack_of_payload)
  qed
  show ?thesis using bs(1,3,4) rt pad by blast
qed

lemmas pack_eval = pack_def pack_entry_def flush_complete_bytes.simps
lemmas unpack_eval = unpack_def pull_bytes.simps

theorem pack_unpack_round_trip_witness:
  "pack [(Small, 4, 15), (Medium, 8, 5)] = Inr [0x5F, 0x00]
   \<and> unpack [0x5F, 0x00] [4, 8] = Inr [15, 5]
   \<and> unpack [0x5F, 0xA0] [4, 8] = Inr [15, 5]"
proof -
  have h: "\<forall>e \<in> set [(Small, 4, 15), (Medium, 8, 5)].
      entry_width e \<in> {4, 8, 12, 16} \<and> 0 \<le> entry_code e
      \<and> entry_code e < 2 ^ nat (entry_width e)"
    by (simp add: entry_width_def entry_code_def)
  have p: "pack [(Small, 4, 15), (Medium, 8, 5)] = Inr [0x5F, 0x00]"
    by (simp add: pack_eval)
  have pad: "length [0x5F, 0xA0 :: byte] = length [0x5F, 0x00 :: byte]
      \<and> take_bit (total_bits [(Small, 4, 15), (Medium, 8, 5)]) (le_val [0x5F, 0xA0])
          = take_bit (total_bits [(Small, 4, 15), (Medium, 8, 5)]) (le_val [0x5F, 0x00])"
    by (simp add: entry_width_def)
  from pack_unpack_round_trip [OF h] p pad
  have "unpack [0x5F, 0x00] (map entry_width [(Small, 4, 15), (Medium, 8, 5)])
          = Inr (map entry_code [(Small, 4, 15), (Medium, 8, 5)])
      \<and> unpack [0x5F, 0xA0] (map entry_width [(Small, 4, 15), (Medium, 8, 5)])
          = Inr (map entry_code [(Small, 4, 15), (Medium, 8, 5)])"
    by auto
  then show ?thesis using p by (simp add: entry_width_def entry_code_def)
qed

subsection \<open>The layout of the variable-width container\<close>













subsection \<open>The fixed-width round trip\<close>

lemma np_round_near: "\<bar>real_of_int (np_round y) - y\<bar> \<le> 1 / 2"
proof -
  have "real_of_int \<lfloor>y\<rfloor> \<le> y" and "y < real_of_int \<lfloor>y\<rfloor> + 1" by linarith+
  then show ?thesis by (auto simp add: np_round_def Let_def)
qed

lemma np_max_abs:
  assumes "audio \<noteq> []"
  shows "\<exists>peak. np_max (map abs audio) = Inr peak \<and> 0 \<le> peak
           \<and> (\<forall>x \<in> set audio. \<bar>x\<bar> \<le> peak)"
proof -
  obtain a rest where a: "audio = a # rest" using assms by (cases audio) auto
  define peak where "peak = fold max (map abs rest) \<bar>a\<bar>"
  have m: "peak = Max (set (\<bar>a\<bar> # map abs rest))"
    unfolding peak_def by (rule Max.set_eq_fold [symmetric])
  have "\<forall>x \<in> set audio. \<bar>x\<bar> \<le> peak"
  proof
    fix x assume "x \<in> set audio"
    then have "\<bar>x\<bar> \<in> set (\<bar>a\<bar> # map abs rest)" unfolding a by auto
    then show "\<bar>x\<bar> \<le> peak" unfolding m by (intro Max_ge) simp_all
  qed
  moreover have "\<bar>a\<bar> \<le> peak" using calculation a by simp
  then have "0 \<le> peak" by linarith
  moreover have "np_max (map abs audio) = Inr peak"
    by (simp add: np_max_def a peak_def)
  ultimately show ?thesis by blast
qed

lemma scaled_bound:
  fixes x peak :: real
  assumes "\<bar>x\<bar> \<le> peak" and "0 \<le> peak"
  shows "\<bar>x * (if peak > 0 then 121 / peak else 127)\<bar> \<le> 121"
proof (cases "peak > 0")
  case True
  have "\<bar>x * (121 / peak)\<bar> = \<bar>x\<bar> / peak * 121" using True by (simp add: abs_mult)
  also have "\<dots> \<le> 1 * 121"
    using assms(1) True by (intro mult_right_mono) (simp_all add: divide_le_eq)
  finally show ?thesis using True by simp
next
  case False
  then have "x = 0" using assms by simp
  then show ?thesis by simp
qed

lemma quantize_sample:
  fixes s d :: real
  assumes "\<bar>s\<bar> \<le> 121" and "- 0.5 \<le> d \<and> d \<le> 0.5"
  shows "\<bar>real_of_int (np_clip (np_round (s + d)) (- 128) 127) - s\<bar> \<le> 1"
proof -
  have n: "\<bar>real_of_int (np_round (s + d)) - (s + d)\<bar> \<le> 1 / 2" by (rule np_round_near)
  then have "\<bar>real_of_int (np_round (s + d))\<bar> \<le> 122" using assms by linarith
  then have "- 128 \<le> np_round (s + d) \<and> np_round (s + d) \<le> 127" by linarith
  then have e: "np_clip (np_round (s + d)) (- 128) 127 = np_round (s + d)"
    by (simp add: np_clip_def)
  show ?thesis unfolding e using n assms(2) by linarith
qed

lemma np_clip_range: "- 128 \<le> np_clip x (- 128) 127 \<and> np_clip x (- 128) 127 \<le> 127"
  by (simp add: np_clip_def)

lemma quantize_8bit_ok:
  assumes "audio \<noteq> []"
  shows "\<exists>q peak. np_max (map abs audio) = Inr peak
           \<and> quantize_8bit audio dither = Inr q
           \<and> length q = length audio
           \<and> (\<forall>x \<in> set q. - 128 \<le> x \<and> x \<le> 127)
           \<and> (triangular_draw dither \<longrightarrow>
                 (\<forall>i < length audio.
                    \<bar>real_of_int (q ! i) - audio ! i * (if peak > 0 then 121 / peak else 127)\<bar>
                      \<le> 1))"
proof -
  obtain peak where p: "np_max (map abs audio) = Inr peak" "0 \<le> peak"
    "\<forall>x \<in> set audio. \<bar>x\<bar> \<le> peak"
    using np_max_abs [OF assms] by blast
  define scale :: real where "scale = (if peak > 0 then 121 / peak else 127)"
  define q where "q = map (\<lambda>i. np_clip (np_round (audio ! i * scale + dither i)) (- 128) 127)
    [0 ..< length audio]"
  have sc: "(if peak > 0 then map (\<lambda>x. x * (121.0 / peak)) audio
             else map (\<lambda>x. x * 127.0) audio) = map (\<lambda>x. x * scale) audio"
    by (simp add: scale_def)
  have "map (\<lambda>x. np_clip (np_round x) (- 128) 127)
          (map (\<lambda>(x, d). x + d)
             (zip (map (\<lambda>x. x * scale) audio)
                (map dither [0 ..< length (map (\<lambda>x. x * scale) audio)]))) = q"
    unfolding q_def by (rule nth_equalityI) simp_all
  then have qq: "quantize_8bit audio dither = Inr q"
    unfolding quantize_8bit_def p(1) sum.case Let_def sc by simp
  have len: "length q = length audio" by (simp add: q_def)
  have rng: "\<forall>x \<in> set q. - 128 \<le> x \<and> x \<le> 127"
    unfolding q_def using np_clip_range by auto
  have near: "triangular_draw dither \<longrightarrow>
      (\<forall>i < length audio. \<bar>real_of_int (q ! i) - audio ! i * scale\<bar> \<le> 1)"
  proof (intro impI allI)
    fix i assume t: "triangular_draw dither" and i: "i < length audio"
    have d: "- 0.5 \<le> dither i \<and> dither i \<le> 0.5"
      using t unfolding triangular_draw_def by blast
    have "\<bar>audio ! i\<bar> \<le> peak" using p(3) i by simp
    then have s: "\<bar>audio ! i * scale\<bar> \<le> 121"
      unfolding scale_def using p(2) by (rule scaled_bound)
    have "q ! i = np_clip (np_round (audio ! i * scale + dither i)) (- 128) 127"
      using i by (simp add: q_def)
    then show "\<bar>real_of_int (q ! i) - audio ! i * scale\<bar> \<le> 1"
      using quantize_sample [OF s d] by simp
  qed
  show ?thesis using p(1) qq len rng near unfolding scale_def by blast
qed

lemma length_uint32_tobytes: "uint32_tobytes n = Inr bs \<Longrightarrow> length bs = 4"
  by (auto simp add: uint32_tobytes_def split: if_splits)

lemma uint32_tobytes_target_sr: "uint32_tobytes target_sr = Inr [0x5E, 0x1A, 0, 0]"
  by (simp add: uint32_tobytes_def target_sr_def)

lemma sint_int8: "- 128 \<le> x \<Longrightarrow> x \<le> 127 \<Longrightarrow> sint (word_of_int x :: byte) = x"
  by (simp add: sint_sbintrunc' signed_take_bit_int_eq_self)

lemma map_sint_int8:
  "\<forall>x \<in> set xs. - 128 \<le> x \<and> x \<le> 127 \<Longrightarrow> map sint (map word_of_int xs :: byte list) = xs"
  by (induction xs) (simp_all add: sint_int8)

lemma gba_encode_ok:
  assumes "quantize_8bit audio dither = Inr q" and "2 \<le> length q" and "length q \<le> 2 ^ 32"
  shows "\<exists>count. length count = 4
           \<and> gba_encode audio dither
               = Inr (magic_FQWT @ [0x5E, 0x1A, 0, 0] @ count @ [word_of_int (hd q)]
                      @ map word_of_int (map (\<lambda>d. np_clip d (- 128) 127) (np_diff q)))"
proof -
  obtain q0 q1 rest where q: "q = q0 # q1 # rest"
    using assms(2) by (cases q; cases "tl q") auto
  have ne: "map (\<lambda>d. np_clip d (- 128) 127) (np_diff q) \<noteq> []" unfolding q by simp
  have l: "length (map (\<lambda>d. np_clip d (- 128) 127) (np_diff q)) = length q - 1"
    by (simp add: length_np_diff)
  have "int (length q - 1) < 2 ^ 32" using assms(2,3) by simp
  then obtain count where c: "uint32_tobytes (int (length q - 1)) = Inr count"
    by (simp add: uint32_tobytes_def)
  have lc: "length count = 4" using c by (rule length_uint32_tobytes)
  have "gba_encode audio dither
      = Inr (magic_FQWT @ [0x5E, 0x1A, 0, 0] @ count @ [word_of_int (hd q)]
             @ map word_of_int (map (\<lambda>d. np_clip d (- 128) 127) (np_diff q)))"
    unfolding gba_encode_def assms(1) sum.case Let_def l
    using ne c by (simp add: q uint32_tobytes_target_sr)
  then show ?thesis using lc by blast
qed

lemma frombuffer_target_sr: "frombuffer_uint32_0 [0x5E, 0x1A, 0, 0] = Inr 6750"
  by (simp add: frombuffer_uint32_0_def)

lemma gba_decode_container:
  assumes "length count = 4" and "- 128 \<le> q0 \<and> q0 \<le> 127"
    and "\<forall>d \<in> set ds. - 128 \<le> d \<and> d \<le> 127"
  shows "gba_decode (magic_FQWT @ [0x5E, 0x1A, 0, 0] @ count @ [word_of_int q0]
                     @ map word_of_int ds)
           = Inr (6750, map (\<lambda>s. real_of_int s / 127) (butlast (reconstruct q0 [q0] ds)))"
proof -
  define fl where "fl = magic_FQWT @ [0x5E, 0x1A, 0, 0] @ count @ [word_of_int q0 :: byte]
    @ map word_of_int ds"
  have m: "take 4 fl = magic_FQWT" by (simp add: fl_def magic_FQWT_def)
  have r: "take 4 (drop 4 fl) = [0x5E, 0x1A, 0, 0]" by (simp add: fl_def magic_FQWT_def)
  have c: "take 4 (drop 4 (drop 4 fl)) = count"
    using assms(1) by (simp add: fl_def magic_FQWT_def)
  have f: "take 1 (drop 8 (drop 4 fl)) = [word_of_int q0]"
    using assms(1) by (simp add: fl_def magic_FQWT_def)
  have d: "drop 9 (drop 4 fl) = map word_of_int ds"
    using assms(1) by (simp add: fl_def magic_FQWT_def)
  obtain n where n: "frombuffer_uint32_0 count = Inr n"
    using frombuffer4 [OF assms(1)] by blast
  have s: "sint (word_of_int q0 :: byte) = q0" using assms(2) by (simp add: sint_int8)
  have ds: "map sint (map word_of_int ds :: byte list) = ds"
    using assms(3) by (rule map_sint_int8)
  then have ds': "map (sint \<circ> (word_of_int :: int \<Rightarrow> byte)) ds = ds" by simp
  have "gba_decode fl
      = Inr (6750, map (\<lambda>s. real_of_int s / 127) (butlast (reconstruct q0 [q0] ds)))"
    unfolding gba_decode_def Let_def m r c f d
    by (simp add: frombuffer_target_sr n frombuffer_int8_0_def s ds')
  then show ?thesis unfolding fl_def .
qed

lemma int8_add_exact:
  assumes "- 128 \<le> q \<and> q \<le> 127"
  shows "max (- 128) (min 127 (int8_add c (q - c))) = q"
proof -
  have "(q + 128) mod 256 = q + 128" using assms by simp
  then show ?thesis using assms by (simp add: int8_add_def)
qed

lemma reconstruct_exact:
  assumes "\<forall>x \<in> set qs. - 128 \<le> x \<and> x \<le> 127"
    and "\<forall>d \<in> set (np_diff (c # qs)). - 128 \<le> d \<and> d \<le> 127"
  shows "reconstruct c acc (map (\<lambda>d. np_clip d (- 128) 127) (np_diff (c # qs))) = acc @ qs"
  using assms
proof (induction qs arbitrary: c acc)
  case Nil
  show ?case by simp
next
  case (Cons q qs)
  have d: "- 128 \<le> q - c \<and> q - c \<le> 127" using Cons.prems(2) by simp
  then have cl: "np_clip (q - c) (- 128) 127 = q - c" by (simp add: np_clip_def)
  have qr: "- 128 \<le> q \<and> q \<le> 127" using Cons.prems(1) by simp
  have a: "\<forall>x \<in> set qs. - 128 \<le> x \<and> x \<le> 127" using Cons.prems(1) by simp
  have b: "\<forall>d \<in> set (np_diff (q # qs)). - 128 \<le> d \<and> d \<le> 127"
    using Cons.prems(2) by simp
  have "reconstruct c acc (map (\<lambda>d. np_clip d (- 128) 127) (np_diff (c # q # qs)))
      = reconstruct q (acc @ [q]) (map (\<lambda>d. np_clip d (- 128) 127) (np_diff (q # qs)))"
    by (simp add: cl Let_def int8_add_exact [OF qr])
  also have "\<dots> = (acc @ [q]) @ qs" by (rule Cons.IH [OF a b])
  finally show ?case by simp
qed

text \<open>
  Claim C1, as stated, fails: three samples decode to two, because the decoder drops
  the last accumulated sample (\<^verbatim>\<open>reconstructed[:-1]\<close>), and the second
  reconstructed sample is further from the original than two quantization steps, because
  the samples are scaled by 121 / peak before they are quantized and the first
  difference is clipped.
\<close>

theorem gba_round_trip_counterexample:
  "gba_optimized_compression [0.5, - 0.25, 0.1] (dither_of [0, 0, 0])
     = Inr (6750, [121 / 127, - (7 / 127)])
   \<and> length [121 / 127, - (7 / 127) :: real] \<noteq> length [0.5, - 0.25, 0.1 :: real]
   \<and> \<not> \<bar>[121 / 127, - (7 / 127)] ! 1 - [0.5, - 0.25, 0.1 :: real] ! 1\<bar> \<le> 1 / 127 + 1 / 127"
  by (simp add: gba_defs)

text \<open>
  Claim C1, amended. For at least two and at most \<open>2 ^ 32\<close> samples, the encoder and the
  decoder both succeed, the decoded sample rate is 6750 and the decoded sequence has one
  sample fewer than the input. When no difference of consecutive quantized samples
  leaves the range of a signed byte, reconstructed sample \<open>i\<close> is quantized sample \<open>i\<close>
  divided by 127; when moreover the dither lies in \<open>[-0.5, 0.5]\<close>, it is within
  \<open>1 / 127\<close> of the peak-scaled original sample divided by 127.
\<close>

theorem gba_round_trip:
  assumes "2 \<le> length audio" and "length audio \<le> 2 ^ 32"
  shows "\<exists>q peak recon.
           np_max (map abs audio) = Inr peak
           \<and> quantize_8bit audio dither = Inr q
           \<and> length q = length audio
           \<and> gba_optimized_compression audio dither = Inr (6750, recon)
           \<and> length recon = length audio - 1
           \<and> ((\<forall>d \<in> set (np_diff q). - 128 \<le> d \<and> d \<le> 127) \<longrightarrow>
                 (\<forall>i < length audio - 1. recon ! i = real_of_int (q ! i) / 127))
           \<and> ((\<forall>d \<in> set (np_diff q). - 128 \<le> d \<and> d \<le> 127) \<and> triangular_draw dither \<longrightarrow>
                 (\<forall>i < length audio - 1.
                    \<bar>recon ! i - audio ! i * (if peak > 0 then 121 / peak else 127) / 127\<bar>
                      \<le> 1 / 127))"
proof -
  have ne: "audio \<noteq> []" using assms(1) by auto
  obtain q peak where q: "np_max (map abs audio) = Inr peak"
    "quantize_8bit audio dither = Inr q" "length q = length audio"
    "\<forall>x \<in> set q. - 128 \<le> x \<and> x \<le> 127"
    "triangular_draw dither \<longrightarrow>
       (\<forall>i < length audio.
          \<bar>real_of_int (q ! i) - audio ! i * (if peak > 0 then 121 / peak else 127)\<bar> \<le> 1)"
    using quantize_8bit_ok [OF ne, of dither] by blast
  define scale :: real where "scale = (if peak > 0 then 121 / peak else 127)"
  obtain q0 qs where qq: "q = q0 # qs" using q(3) ne by (cases q) auto
  define ds where "ds = map (\<lambda>d. np_clip d (- 128) 127) (np_diff q)"
  define recon where
    "recon = map (\<lambda>s. real_of_int s / 127) (butlast (reconstruct q0 [q0] ds))"
  have l2: "2 \<le> length q" and l32: "length q \<le> 2 ^ 32" using assms q(3) by simp_all
  obtain count where c: "length count = 4"
    "gba_encode audio dither
       = Inr (magic_FQWT @ [0x5E, 0x1A, 0, 0] @ count @ [word_of_int (hd q)]
              @ map word_of_int ds)"
    using gba_encode_ok [OF q(2) l2 l32] unfolding ds_def by blast
  have q0r: "- 128 \<le> q0 \<and> q0 \<le> 127" using q(4) qq by simp
  have dsr: "\<forall>d \<in> set ds. - 128 \<le> d \<and> d \<le> 127"
    unfolding ds_def using np_clip_range by auto
  have dec: "gba_optimized_compression audio dither = Inr (6750, recon)"
    unfolding gba_optimized_compression_def c(2) sum.case recon_def
    using gba_decode_container [OF c(1) q0r dsr] by (simp add: qq)
  have lds: "length ds = length audio - 1" by (simp add: ds_def length_np_diff q(3))
  have lrec: "length recon = length audio - 1"
    by (simp add: recon_def length_reconstruct lds)
  have exact: "(\<forall>d \<in> set (np_diff q). - 128 \<le> d \<and> d \<le> 127) \<longrightarrow>
      (\<forall>i < length audio - 1. recon ! i = real_of_int (q ! i) / 127)"
  proof (intro impI allI)
    fix i
    assume nc: "\<forall>d \<in> set (np_diff q). - 128 \<le> d \<and> d \<le> 127"
      and i: "i < length audio - 1"
    have qsr: "\<forall>x \<in> set qs. - 128 \<le> x \<and> x \<le> 127" using q(4) qq by simp
    have "reconstruct q0 [q0] ds = [q0] @ qs"
      unfolding ds_def qq using qsr nc [unfolded qq] by (rule reconstruct_exact)
    then have r: "recon = map (\<lambda>s. real_of_int s / 127) (butlast q)"
      by (simp add: recon_def qq)
    have "i < length (butlast q)" using i q(3) by simp
    then show "recon ! i = real_of_int (q ! i) / 127"
      unfolding r by (simp add: nth_butlast)
  qed
  have bound: "(\<forall>d \<in> set (np_diff q). - 128 \<le> d \<and> d \<le> 127) \<and> triangular_draw dither \<longrightarrow>
      (\<forall>i < length audio - 1. \<bar>recon ! i - audio ! i * scale / 127\<bar> \<le> 1 / 127)"
  proof (intro impI allI)
    fix i
    assume h: "(\<forall>d \<in> set (np_diff q). - 128 \<le> d \<and> d \<le> 127) \<and> triangular_draw dither"
      and i: "i < length audio - 1"
    have e: "recon ! i = real_of_int (q ! i) / 127" using exact h i by blast
    have "\<bar>real_of_int (q ! i) - audio ! i * scale\<bar> \<le> 1"
      using q(5) h i unfolding scale_def by simp
    then have "\<bar>(real_of_int (q ! i) - audio ! i * scale) / 127\<bar> \<le> 1 / 127"
      by (simp add: abs_divide divide_right_mono del: abs_numeral)
    then show "\<bar>recon ! i - audio ! i * scale / 127\<bar> \<le> 1 / 127"
      unfolding e by (simp add: diff_divide_distrib)
  qed
  show ?thesis
    using q(1,2,3) dec lrec exact bound unfolding scale_def by blast
qed

theorem gba_round_trip_witness:
  "gba_optimized_compression [0.5, 0.25, 0.1] (dither_of [0, 0, 0])
     = Inr (6750, [121 / 127, 60 / 127])
   \<and> quantize_8bit [0.5, 0.25, 0.1] (dither_of [0, 0, 0]) = Inr [121, 60, 24]
   \<and> \<bar>[121 / 127, 60 / 127] ! 1 - [0.5, 0.25, 0.1 :: real] ! 1 * (121 / 0.5) / 127\<bar>
       \<le> 1 / 127"
proof -
  have a: "2 \<le> length [0.5, 0.25, 0.1 :: real]" by simp
  have b: "length [0.5, 0.25, 0.1 :: real] \<le> 2 ^ 32" by simp
  have p: "np_max (map abs [0.5, 0.25, 0.1]) = Inr 0.5" by (simp add: np_max_def)
  have k: "quantize_8bit [0.5, 0.25, 0.1] (dither_of [0, 0, 0]) = Inr [121, 60, 24]"
    by (simp add: gba_defs)
  have t: "triangular_draw (dither_of [0, 0, 0])" by (simp add: triangular_draw_dither_of)
  have n: "\<forall>d \<in> set (np_diff [121, 60, 24 :: int]). - 128 \<le> d \<and> d \<le> 127" by simp
  obtain q peak recon where r: "np_max (map abs [0.5, 0.25, 0.1]) = Inr peak"
    "quantize_8bit [0.5, 0.25, 0.1] (dither_of [0, 0, 0]) = Inr q"
    "gba_optimized_compression [0.5, 0.25, 0.1] (dither_of [0, 0, 0]) = Inr (6750, recon)"
    "length recon = length [0.5, 0.25, 0.1 :: real] - 1"
    "(\<forall>d \<in> set (np_diff q). - 128 \<le> d \<and> d \<le> 127) \<longrightarrow>
       (\<forall>i < length [0.5, 0.25, 0.1 :: real] - 1. recon ! i = real_of_int (q ! i) / 127)"
    "(\<forall>d \<in> set (np_diff q). - 128 \<le> d \<and> d \<le> 127)
       \<and> triangular_draw (dither_of [0, 0, 0]) \<longrightarrow>
       (\<forall>i < length [0.5, 0.25, 0.1 :: real] - 1.
          \<bar>recon ! i - [0.5, 0.25, 0.1] ! i * (if peak > 0 then 121 / peak else 127) / 127\<bar>
            \<le> 1 / 127)"
    using gba_round_trip [OF a b, of "dither_of [0, 0, 0]"] by blast
  have pk: "peak = 0.5" using r(1) p by simp
  have qk: "q = [121, 60, 24]" using r(2) k by simp
  have e: "\<forall>i < 2. recon ! i = real_of_int ([121, 60, 24] ! i) / 127"
    using r(5) n unfolding qk by simp
  have e0: "recon ! 0 = 121 / 127" using spec [OF e, of 0] by simp
  have e1: "recon ! 1 = 60 / 127" using spec [OF e, of 1] by simp
  have l: "length recon = 2" using r(4) by simp
  obtain x y where xy: "recon = [x, y]"
    using l by (cases recon; cases "tl recon") auto
  have rc: "recon = [121 / 127, 60 / 127]"
    using e0 e1 unfolding xy by simp
  have al: "\<forall>i < 2. \<bar>recon ! i - [0.5, 0.25, 0.1] ! i * (121 / 0.5) / 127\<bar> \<le> 1 / 127"
    using r(6) n t unfolding qk pk by simp
  have bd: "\<bar>recon ! 1 - [0.5, 0.25, 0.1 :: real] ! 1 * (121 / 0.5) / 127\<bar> \<le> 1 / 127"
    using spec [OF al, of 1] by simp
  show ?thesis using r(3) k bd unfolding rc by simp
qed

subsection \<open>The quantizer in binary64\<close>

lemmas float64_eval = float64_mul_def float64_of_real_def float64_round_def
  float64_exponent_def float64_exponent_up.simps float64_exponent_down.simps np_round_def
  py_int_float_def py_int_def

lemma quantize_delta_float64_widths:
  "quantize_delta_float64 delta 4
     = (case py_int_float (float64_mul delta 7) of
          Inl e \<Rightarrow> Inl e | Inr scaled \<Rightarrow> Inr (max (- 8) (min 7 scaled)))"
  "quantize_delta_float64 delta 8
     = (case py_int_float (float64_mul delta 127) of
          Inl e \<Rightarrow> Inl e | Inr scaled \<Rightarrow> Inr (max (- 128) (min 127 scaled)))"
  "quantize_delta_float64 delta 12
     = (case py_int_float (float64_mul delta 2047) of
          Inl e \<Rightarrow> Inl e | Inr scaled \<Rightarrow> Inr (max (- 2048) (min 2047 scaled)))"
  by (simp_all add: quantize_delta_float64_def quantization_levels_cases split: sum.splits)

lemma np_round_ge: "real_of_int k \<le> y \<Longrightarrow> k \<le> np_round y"
proof -
  assume "real_of_int k \<le> y"
  then have "k \<le> \<lfloor>y\<rfloor>" by (simp add: le_floor_iff)
  then show ?thesis by (simp add: np_round_def Let_def)
qed

lemma np_round_le: "y \<le> real_of_int k \<Longrightarrow> np_round y \<le> k"
proof -
  assume a: "y \<le> real_of_int k"
  have f: "real_of_int \<lfloor>y\<rfloor> \<le> y" by simp
  show ?thesis
  proof (cases "y = real_of_int \<lfloor>y\<rfloor>")
    case True
    then have "np_round y = \<lfloor>y\<rfloor>" by (simp add: np_round_def Let_def)
    moreover have "\<lfloor>y\<rfloor> \<le> k" using a by (simp add: floor_le_iff)
    ultimately show ?thesis by simp
  next
    case False
    then have "real_of_int \<lfloor>y\<rfloor> < real_of_int k" using a f by linarith
    then have "\<lfloor>y\<rfloor> + 1 \<le> k" by simp
    moreover have "np_round y \<le> \<lfloor>y\<rfloor> + 1" by (simp add: np_round_def Let_def)
    ultimately show ?thesis by linarith
  qed
qed

lemma float64_exponent_up_le:
  "1 \<le> x \<Longrightarrow> 2 powi (float64_exponent_up n x) \<le> x"
proof (induction n arbitrary: x)
  case 0
  then show ?case by (simp add: float64_exponent_up.simps [of 0 x])
next
  case (Suc n)
  show ?case
  proof (cases "x < 2")
    case True
    then show ?thesis using Suc.prems by (simp add: float64_exponent_up.simps [of "Suc n" x])
  next
    case False
    then have h: "1 \<le> x / 2" by simp
    have e: "float64_exponent_up (Suc n) x = 1 + float64_exponent_up n (x / 2)"
      using False by (simp add: float64_exponent_up.simps [of "Suc n" x])
    have "(2::real) powi (1 + float64_exponent_up n (x / 2))
        = 2 * 2 powi (float64_exponent_up n (x / 2))"
      by (subst power_int_add) simp_all
    also have "\<dots> \<le> 2 * (x / 2)" using Suc.IH [OF h] by simp
    finally show ?thesis unfolding e by simp
  qed
qed

lemma float64_exponent_up_range:
  "0 \<le> float64_exponent_up n x \<and> float64_exponent_up n x \<le> int n"
proof (induction n arbitrary: x)
  case 0
  then show ?case by (simp add: float64_exponent_up.simps [of 0 x])
next
  case (Suc n)
  show ?case using Suc.IH [of "x / 2"]
    by (simp add: float64_exponent_up.simps [of "Suc n" x])
qed

lemma float64_exponent_down_range:
  "- int n \<le> float64_exponent_down n x \<and> float64_exponent_down n x \<le> 0"
proof (induction n arbitrary: x)
  case 0
  then show ?case by (simp add: float64_exponent_down.simps [of 0 x])
next
  case (Suc n)
  show ?case using Suc.IH [of "2 * x"]
    by (simp add: float64_exponent_down.simps [of "Suc n" x])
qed

lemma float64_exponent_range:
  "- 1022 \<le> float64_exponent x \<and> float64_exponent x \<le> 1024"
  using float64_exponent_up_range [of 1024 "\<bar>x\<bar>"] float64_exponent_down_range [of 1022 "\<bar>x\<bar>"]
  by (simp add: float64_exponent_def)

lemma float64_exponent_le:
  "float64_exponent x \<le> 0 \<or> 2 powi (float64_exponent x) \<le> \<bar>x\<bar>"
  using float64_exponent_up_le [of "\<bar>x\<bar>" 1024] float64_exponent_down_range [of 1022 "\<bar>x\<bar>"]
  by (simp add: float64_exponent_def)

lemma float64_exponent_less:
  assumes "\<bar>x\<bar> < 2 powi k" and "0 \<le> k"
  shows "float64_exponent x < k \<or> float64_exponent x \<le> 0"
proof (rule ccontr)
  assume "\<not> (float64_exponent x < k \<or> float64_exponent x \<le> 0)"
  then have a: "k \<le> float64_exponent x" and b: "\<not> float64_exponent x \<le> 0" by simp_all
  have "(2::real) powi k \<le> 2 powi (float64_exponent x)"
    using a by (intro power_int_increasing) simp_all
  also have "\<dots> \<le> \<bar>x\<bar>" using float64_exponent_le [of x] b by blast
  finally show False using assms(1) by simp
qed

lemma round_at_near:
  "\<bar>real_of_int (np_round (x * 2 powi (52 - e))) * 2 powi (e - 52) - x\<bar> \<le> 2 powi (e - 53)"
proof -
  define s :: real where "s = 2 powi (52 - e)"
  define u :: real where "u = 2 powi (e - 52)"
  have su: "s * u = 1" unfolding s_def u_def by (simp flip: power_int_add)
  have u0: "0 < u" unfolding u_def by simp
  have h: "u / 2 = 2 powi (e - 53)"
  proof -
    have "(2::real) powi (e - 52) = 2 powi ((e - 53) + 1)" by simp
    also have "\<dots> = 2 powi (e - 53) * 2" by (subst power_int_add) simp_all
    finally show ?thesis unfolding u_def by simp
  qed
  have "\<bar>real_of_int (np_round (x * s)) - x * s\<bar> \<le> 1 / 2" by (rule np_round_near)
  then have "\<bar>real_of_int (np_round (x * s)) - x * s\<bar> * u \<le> 1 / 2 * u"
    using u0 by (intro mult_right_mono) simp_all
  moreover have "\<bar>real_of_int (np_round (x * s)) - x * s\<bar> * u
      = \<bar>real_of_int (np_round (x * s)) * u - x * (s * u)\<bar>"
  proof -
    have "\<bar>real_of_int (np_round (x * s)) - x * s\<bar> * u
        = \<bar>(real_of_int (np_round (x * s)) - x * s) * u\<bar>"
      using u0 by (simp add: abs_mult)
    also have "(real_of_int (np_round (x * s)) - x * s) * u
        = real_of_int (np_round (x * s)) * u - x * (s * u)"
      by (simp add: algebra_simps)
    finally show ?thesis .
  qed
  ultimately have "\<bar>real_of_int (np_round (x * s)) * u - x\<bar> \<le> u / 2"
    unfolding su by simp
  then have "\<bar>real_of_int (np_round (x * s)) * u - x\<bar> \<le> 2 powi (e - 53)"
    unfolding h .
  then show ?thesis unfolding s_def u_def .
qed

lemma round_at_bracket:
  assumes "e \<le> 52"
  shows "real_of_int \<lfloor>x\<rfloor> \<le> real_of_int (np_round (x * 2 powi (52 - e))) * 2 powi (e - 52)
       \<and> real_of_int (np_round (x * 2 powi (52 - e))) * 2 powi (e - 52) \<le> real_of_int \<lceil>x\<rceil>"
proof -
  define S :: int where "S = 2 ^ nat (52 - e)"
  define u :: real where "u = 2 powi (e - 52)"
  have s: "(2::real) powi (52 - e) = real_of_int S"
    unfolding S_def using assms by (simp add: power_int_nonneg_exp)
  have S0: "0 < S" unfolding S_def by simp
  have su: "real_of_int S * u = 1" unfolding s [symmetric] u_def by (simp flip: power_int_add)
  have u0: "0 < u" unfolding u_def by simp
  have "real_of_int (\<lfloor>x\<rfloor> * S) \<le> x * real_of_int S"
    using S0 by (simp add: mult_right_mono)
  then have "\<lfloor>x\<rfloor> * S \<le> np_round (x * real_of_int S)" by (rule np_round_ge)
  then have "real_of_int (\<lfloor>x\<rfloor> * S) \<le> real_of_int (np_round (x * real_of_int S))" by linarith
  then have "real_of_int (\<lfloor>x\<rfloor> * S) * u \<le> real_of_int (np_round (x * real_of_int S)) * u"
    using u0 by (intro mult_right_mono) simp_all
  moreover have "real_of_int (\<lfloor>x\<rfloor> * S) * u = real_of_int \<lfloor>x\<rfloor>"
    using su by (simp add: mult.assoc)
  ultimately have lo: "real_of_int \<lfloor>x\<rfloor> \<le> real_of_int (np_round (x * real_of_int S)) * u"
    by (simp only:)
  have "x * real_of_int S \<le> real_of_int (\<lceil>x\<rceil> * S)"
    using S0 by (simp add: mult_right_mono)
  then have "np_round (x * real_of_int S) \<le> \<lceil>x\<rceil> * S" by (rule np_round_le)
  then have "real_of_int (np_round (x * real_of_int S)) \<le> real_of_int (\<lceil>x\<rceil> * S)" by linarith
  then have "real_of_int (np_round (x * real_of_int S)) * u \<le> real_of_int (\<lceil>x\<rceil> * S) * u"
    using u0 by (intro mult_right_mono) simp_all
  moreover have "real_of_int (\<lceil>x\<rceil> * S) * u = real_of_int \<lceil>x\<rceil>"
    using su by (simp add: mult.assoc)
  ultimately have hi: "real_of_int (np_round (x * real_of_int S)) * u \<le> real_of_int \<lceil>x\<rceil>"
    by (simp only:)
  show ?thesis using lo hi unfolding s u_def by simp
qed

lemma float64_round_near:
  "\<bar>float64_round x - x\<bar> \<le> 2 powi (float64_exponent x - 53)"
  unfolding float64_round_def Let_def by (rule round_at_near)

lemma float64_round_bracket:
  "float64_exponent x \<le> 52 \<Longrightarrow>
     real_of_int \<lfloor>x\<rfloor> \<le> float64_round x \<and> float64_round x \<le> real_of_int \<lceil>x\<rceil>"
  unfolding float64_round_def Let_def by (rule round_at_bracket)

lemma py_int_between:
  assumes "real_of_int a \<le> r" and "r \<le> real_of_int b"
  shows "a \<le> py_int r \<and> py_int r \<le> b"
proof -
  have f: "a \<le> \<lfloor>r\<rfloor>" using assms(1) by (simp add: le_floor_iff)
  have c: "\<lceil>r\<rceil> \<le> b" using assms(2) by (simp add: ceiling_le_iff)
  have fc: "\<lfloor>r\<rfloor> \<le> \<lceil>r\<rceil>" by (rule floor_le_ceiling)
  have "\<lfloor>r\<rfloor> \<le> b" and "a \<le> \<lceil>r\<rceil>" using f c fc by linarith+
  then show ?thesis using f c by (simp add: py_int_def)
qed

lemma float64_round_finite:
  assumes "\<bar>x\<bar> < 2 ^ 1024 - 2 ^ 970"
  shows "\<bar>float64_round x\<bar> < 2 ^ 1024"
proof -
  have "\<bar>x\<bar> < 2 powi 1024" using assms by simp
  then have "float64_exponent x < 1024 \<or> float64_exponent x \<le> 0"
    by (rule float64_exponent_less) simp
  then have "float64_exponent x - 53 \<le> 970" by auto
  then have "(2::real) powi (float64_exponent x - 53) \<le> 2 powi 970"
    by (intro power_int_increasing) simp_all
  then have "\<bar>float64_round x - x\<bar> \<le> 2 ^ 970"
    using float64_round_near [of x] by simp
  then show ?thesis using assms by linarith
qed

lemma float64_mul_finite:
  assumes "\<bar>a * b\<bar> < 2 ^ 1024 - 2 ^ 970"
  shows "float64_mul a b = Finite (float64_round (a * b))"
proof -
  have "\<bar>float64_round (a * b)\<bar> < 2 ^ 1024" using assms by (rule float64_round_finite)
  then have "\<not> 2 ^ 1024 \<le> float64_round (a * b)"
    and "\<not> float64_round (a * b) \<le> - (2 ^ 1024)" by linarith+
  then show ?thesis by (simp add: float64_mul_def float64_of_real_def Let_def)
qed

lemma float64_round_large:
  assumes "52 < float64_exponent x"
  shows "(0 < x \<longrightarrow> 2048 \<le> float64_round x \<and> 2048 \<le> x)
       \<and> (x \<le> 0 \<longrightarrow> float64_round x \<le> - 2048 \<and> x \<le> - 2048)"
proof -
  define e where "e = float64_exponent x"
  have e: "52 < e" using assms by (simp add: e_def)
  have le: "2 powi e \<le> \<bar>x\<bar>" using float64_exponent_le [of x] e unfolding e_def by auto
  have "(2::real) powi 53 \<le> 2 powi e" using e by (intro power_int_increasing) simp_all
  then have big: "2 ^ 53 \<le> \<bar>x\<bar>" using le by simp
  have "(2::real) powi e = 2 powi ((e - 53) + 53)" by simp
  also have "\<dots> = 2 powi (e - 53) * 2 powi 53" by (subst power_int_add) simp_all
  finally have "2 powi (e - 53) * 2 ^ 53 \<le> \<bar>x\<bar>" using le by simp
  then have "2 powi (e - 53) \<le> \<bar>x\<bar> / 2 ^ 53" by (simp add: le_divide_eq)
  then have near: "\<bar>float64_round x - x\<bar> \<le> \<bar>x\<bar> / 2 ^ 53"
    using float64_round_near [of x] unfolding e_def by linarith
  have half: "\<bar>x\<bar> / 2 ^ 53 \<le> \<bar>x\<bar> / 2" by (intro divide_left_mono) simp_all
  show ?thesis using near half big by (auto simp add: abs_if split: if_splits)
qed

lemma clamp_mono:
  fixes a b lo hi :: int
  shows "a \<le> b \<Longrightarrow> max lo (min hi a) \<le> max lo (min hi b)"
  by (simp add: max_def min_def)

lemma clamp_high:
  fixes v lo hi :: int
  shows "hi \<le> v \<Longrightarrow> max lo (min hi v) = max lo hi"
  by (simp only: min_absorb1)

lemma clamp_low:
  fixes v lo hi :: int
  shows "v \<le> lo \<Longrightarrow> max lo (min hi v) = lo"
  by arith

lemma trunc_round_bracket:
  fixes lo hi :: int
  assumes "- 2048 \<le> lo" and "hi \<le> 2047"
  shows "max lo (min hi \<lfloor>x\<rfloor>) \<le> max lo (min hi (py_int (float64_round x)))
       \<and> max lo (min hi (py_int (float64_round x))) \<le> max lo (min hi \<lceil>x\<rceil>)"
proof (cases "float64_exponent x \<le> 52")
  case True
  have "\<lfloor>x\<rfloor> \<le> py_int (float64_round x) \<and> py_int (float64_round x) \<le> \<lceil>x\<rceil>"
    using float64_round_bracket [OF True] by (intro py_int_between) simp_all
  then show ?thesis
    using clamp_mono [of "\<lfloor>x\<rfloor>" "py_int (float64_round x)" lo hi]
      clamp_mono [of "py_int (float64_round x)" "\<lceil>x\<rceil>" lo hi]
    by blast
next
  case False
  then have big: "(0 < x \<longrightarrow> 2048 \<le> float64_round x \<and> 2048 \<le> x)
       \<and> (x \<le> 0 \<longrightarrow> float64_round x \<le> - 2048 \<and> x \<le> - 2048)"
    by (intro float64_round_large) simp
  show ?thesis
  proof (cases "0 < x")
    case True
    then have r: "2048 \<le> float64_round x" and x: "2048 \<le> x" using big by simp_all
    have p: "2048 \<le> py_int (float64_round x)" using r by (simp add: py_int_def le_floor_iff)
    have f: "2048 \<le> \<lfloor>x\<rfloor>" using x by (simp add: le_floor_iff)
    have c: "2048 \<le> \<lceil>x\<rceil>" using x by (simp add: le_ceiling_iff)
    have a: "hi \<le> py_int (float64_round x)" "hi \<le> \<lfloor>x\<rfloor>" "hi \<le> \<lceil>x\<rceil>"
      using p f c assms(2) by linarith+
    show ?thesis unfolding clamp_high [OF a(1)] clamp_high [OF a(2)] clamp_high [OF a(3)]
      by simp
  next
    case False
    then have r: "float64_round x \<le> - 2048" and x: "x \<le> - 2048" using big by simp_all
    have p: "py_int (float64_round x) \<le> - 2048" using r by (simp add: py_int_def ceiling_le_iff)
    have f: "\<lfloor>x\<rfloor> \<le> - 2048" using x by (simp add: floor_le_iff)
    have c: "\<lceil>x\<rceil> \<le> - 2048" using x by (simp add: ceiling_le_iff)
    have a: "py_int (float64_round x) \<le> lo" "\<lfloor>x\<rfloor> \<le> lo" "\<lceil>x\<rceil> \<le> lo"
      using p f c assms(1) by linarith+
    show ?thesis unfolding clamp_low [OF a(1)] clamp_low [OF a(2)] clamp_low [OF a(3)]
      by simp
  qed
qed

lemma trunc_round_exact:
  fixes lo hi :: int
  assumes "- 2048 \<le> lo" and "hi \<le> 2047"
    and "\<bar>x\<bar> - real_of_int \<lfloor>\<bar>x\<bar>\<rfloor> < 1 - 1 / 2 ^ 43"
  shows "max lo (min hi (py_int (float64_round x))) = max lo (min hi (py_int x))"
proof (cases "\<bar>x\<bar> < 2048")
  case False
  note b = trunc_round_bracket [OF assms(1,2), of x]
  show ?thesis
  proof (cases "0 \<le> x")
    case True
    then have x: "2048 \<le> x" using False by simp
    have f: "2048 \<le> \<lfloor>x\<rfloor>" using x by (simp add: le_floor_iff)
    have c: "2048 \<le> \<lceil>x\<rceil>" using x by (simp add: le_ceiling_iff)
    have a: "hi \<le> \<lfloor>x\<rfloor>" "hi \<le> \<lceil>x\<rceil>" using f c assms(2) by linarith+
    have q: "max lo (min hi (py_int (float64_round x))) = max lo hi"
      using b unfolding clamp_high [OF a(1)] clamp_high [OF a(2)] by linarith
    have "py_int x = \<lfloor>x\<rfloor>" using True by (simp add: py_int_def)
    then show ?thesis unfolding q using clamp_high [OF a(1), of lo] by simp
  next
    case F: False
    then have x: "x \<le> - 2048" using False by simp
    have f: "\<lfloor>x\<rfloor> \<le> - 2048" using x by (simp add: floor_le_iff)
    have c: "\<lceil>x\<rceil> \<le> - 2048" using x by (simp add: ceiling_le_iff)
    have a: "\<lfloor>x\<rfloor> \<le> lo" "\<lceil>x\<rceil> \<le> lo" using f c assms(1) by linarith+
    have q: "max lo (min hi (py_int (float64_round x))) = lo"
      using b unfolding clamp_low [OF a(1)] clamp_low [OF a(2)] by linarith
    have "py_int x = \<lceil>x\<rceil>" using F by (simp add: py_int_def)
    then show ?thesis unfolding q using clamp_low [OF a(2), of hi] by simp
  qed
next
  case True
  then have "\<bar>x\<bar> < 2 powi 11" by simp
  then have "float64_exponent x < 11 \<or> float64_exponent x \<le> 0"
    by (rule float64_exponent_less) simp
  then have e: "float64_exponent x \<le> 52" and "float64_exponent x - 53 \<le> - 43" by auto
  then have "(2::real) powi (float64_exponent x - 53) \<le> 2 powi (- 43)"
    by (intro power_int_increasing) simp_all
  then have near: "\<bar>float64_round x - x\<bar> \<le> 1 / 2 ^ 43"
    using float64_round_near [of x] by (simp add: power_int_minus_divide)
  note br = float64_round_bracket [OF e]
  define c :: real where "c = 1 / 2 ^ 43"
  have nc: "\<bar>float64_round x - x\<bar> \<le> c" using near unfolding c_def .
  have fr: "\<bar>x\<bar> - real_of_int \<lfloor>\<bar>x\<bar>\<rfloor> < 1 - c" using assms(3) unfolding c_def .
  show ?thesis
  proof (cases "0 \<le> x")
    case True
    then have ax: "\<bar>x\<bar> = x" by simp
    have "float64_round x < real_of_int \<lfloor>x\<rfloor> + 1" using fr nc unfolding ax by linarith
    then have "\<lfloor>float64_round x\<rfloor> = \<lfloor>x\<rfloor>" using br by (intro floor_unique) simp_all
    moreover have "0 \<le> float64_round x"
    proof -
      have "0 \<le> \<lfloor>x\<rfloor>" using True by simp
      then have "0 \<le> real_of_int \<lfloor>x\<rfloor>" by linarith
      then show ?thesis using br by linarith
    qed
    ultimately show ?thesis using True by (simp add: py_int_def)
  next
    case False
    then have ax: "\<bar>x\<bar> = - x" by simp
    have fl: "real_of_int \<lfloor>- x\<rfloor> = - real_of_int \<lceil>x\<rceil>" by (simp add: ceiling_def)
    have lo: "real_of_int \<lceil>x\<rceil> - 1 < float64_round x"
      using fr nc unfolding ax fl by linarith
    have c0: "\<lceil>x\<rceil> \<le> 0" using False by (simp add: ceiling_le_iff)
    have c: "\<lceil>float64_round x\<rceil> = \<lceil>x\<rceil>" using br lo by (intro ceiling_unique) simp_all
    show ?thesis
    proof (cases "0 \<le> float64_round x")
      case T: True
      then have "float64_round x = 0" and "\<lceil>x\<rceil> = 0" using br c0 by linarith+
      then show ?thesis using False by (simp add: py_int_def)
    next
      case False2: False
      then show ?thesis using False c by (simp add: py_int_def)
    qed
  qed
qed

lemma float64_round_overflow:
  assumes "2 ^ 1024 \<le> \<bar>x\<bar>"
  shows "(0 \<le> x \<longrightarrow> 2 ^ 1024 \<le> float64_round x)
       \<and> (x < 0 \<longrightarrow> float64_round x \<le> - (2 ^ 1024))"
proof -
  define e where "e = float64_exponent x"
  define u :: real where "u = 2 powi (e - 52)"
  define K :: int where "K = 2 ^ nat (1076 - e)"
  have e: "e \<le> 1024" using float64_exponent_range [of x] by (simp add: e_def)
  have u0: "0 < u" by (simp add: u_def)
  have "real_of_int K = 2 powi (1076 - e)"
    unfolding K_def using e by (simp add: power_int_nonneg_exp)
  also have "\<dots> = 2 powi (1024 + (52 - e))" by simp
  also have "\<dots> = 2 powi 1024 * 2 powi (52 - e)" by (subst power_int_add) simp_all
  finally have K: "real_of_int K = 2 ^ 1024 * 2 powi (52 - e)" by simp
  have "2 powi (52 - e) * u = 2 powi ((52 - e) + (e - 52))"
    unfolding u_def by (subst power_int_add) simp_all
  then have su: "2 powi (52 - e) * u = 1" by simp
  have Ku: "real_of_int K * u = 2 ^ 1024" unfolding K using su by (simp add: mult.assoc)
  have r: "float64_round x = real_of_int (np_round (x * 2 powi (52 - e))) * u"
    by (simp add: float64_round_def Let_def e_def u_def)
  have pos: "2 ^ 1024 \<le> float64_round x" if "0 \<le> x"
  proof -
    have "2 ^ 1024 \<le> x" using assms that by simp
    then have "2 ^ 1024 * 2 powi (52 - e) \<le> x * 2 powi (52 - e)"
      by (intro mult_right_mono) simp_all
    then have "K \<le> np_round (x * 2 powi (52 - e))" unfolding K [symmetric] by (rule np_round_ge)
    then have "real_of_int K \<le> real_of_int (np_round (x * 2 powi (52 - e)))" by linarith
    then have "real_of_int K * u \<le> real_of_int (np_round (x * 2 powi (52 - e))) * u"
      using u0 by (intro mult_right_mono) simp_all
    then show ?thesis unfolding Ku r .
  qed
  have neg: "float64_round x \<le> - (2 ^ 1024)" if "x < 0"
  proof -
    have "x \<le> - (2 ^ 1024)" using assms that by simp
    then have "x * 2 powi (52 - e) \<le> - (2 ^ 1024) * 2 powi (52 - e)"
      by (intro mult_right_mono) simp_all
    then have "x * 2 powi (52 - e) \<le> real_of_int (- K)" unfolding of_int_minus K by simp
    then have "np_round (x * 2 powi (52 - e)) \<le> - K" by (rule np_round_le)
    then have "real_of_int (np_round (x * 2 powi (52 - e))) \<le> - real_of_int K" by linarith
    then have "real_of_int (np_round (x * 2 powi (52 - e))) * u \<le> - real_of_int K * u"
      using u0 by (intro mult_right_mono) simp_all
    then have "real_of_int (np_round (x * 2 powi (52 - e))) * u \<le> - (real_of_int K * u)"
      by simp
    then show ?thesis unfolding Ku r .
  qed
  show ?thesis using pos neg by blast
qed

lemma float64_mul_overflow:
  assumes "2 ^ 1024 \<le> \<bar>a * b\<bar>"
  shows "py_int_float (float64_mul a b) = Inl OverflowError"
proof (cases "0 \<le> a * b")
  case True
  then have "2 ^ 1024 \<le> float64_round (a * b)"
    using float64_round_overflow [OF assms] by blast
  then show ?thesis by (simp add: float64_mul_def float64_of_real_def py_int_float_def Let_def)
next
  case False
  then have "float64_round (a * b) \<le> - (2 ^ 1024)"
    using float64_round_overflow [OF assms] by simp
  then show ?thesis by (simp add: float64_mul_def float64_of_real_def py_int_float_def Let_def)
qed

lemma quantize_delta_float64_overflow:
  assumes "bits \<in> {4, 8, 12}"
    and "2 ^ 1024 \<le> \<bar>delta\<bar> * real_of_int (2 ^ nat (bits - 1) - 1)"
  shows "quantize_delta_float64 delta bits = Inl OverflowError"
proof -
  consider "bits = 4" | "bits = 8" | "bits = 12" using assms(1) by auto
  then show ?thesis
  proof cases
    case 1
    have "2 ^ 1024 \<le> \<bar>delta * 7\<bar>" using assms(2) unfolding 1 by (simp add: abs_mult)
    then show ?thesis unfolding 1 quantize_delta_float64_widths
      by (simp add: float64_mul_overflow)
  next
    case 2
    have "2 ^ 1024 \<le> \<bar>delta * 127\<bar>" using assms(2) unfolding 2 by (simp add: abs_mult)
    then show ?thesis unfolding 2 quantize_delta_float64_widths
      by (simp add: float64_mul_overflow)
  next
    case 3
    have "2 ^ 1024 \<le> \<bar>delta * 2047\<bar>" using assms(2) unfolding 3 by (simp add: abs_mult)
    then show ?thesis unfolding 3 quantize_delta_float64_widths
      by (simp add: float64_mul_overflow)
  qed
qed

lemma quantize_float64_core:
  fixes hi :: int
  assumes "0 \<le> hi" and "hi \<le> 2047"
    and "\<bar>delta * real_of_int hi\<bar> < 2 ^ 1024 - 2 ^ 970"
  shows "\<exists>q. (case py_int_float (float64_mul delta (real_of_int hi)) of
               Inl e \<Rightarrow> Inl e
             | Inr scaled \<Rightarrow> Inr (max (- hi - 1) (min hi scaled))) = Inr q
           \<and> q = max (- hi - 1) (min hi (py_int (float64_round (delta * real_of_int hi))))
           \<and> - hi - 1 \<le> q \<and> q \<le> hi
           \<and> max (- hi - 1) (min hi \<lfloor>delta * real_of_int hi\<rfloor>) \<le> q
           \<and> q \<le> max (- hi - 1) (min hi \<lceil>delta * real_of_int hi\<rceil>)
           \<and> (\<bar>delta * real_of_int hi\<bar> - real_of_int \<lfloor>\<bar>delta * real_of_int hi\<bar>\<rfloor>
                 < 1 - 1 / 2 ^ 43 \<longrightarrow>
               q = max (- hi - 1) (min hi (py_int (delta * real_of_int hi))))"
proof -
  define x where "x = delta * real_of_int hi"
  define q where "q = max (- hi - 1) (min hi (py_int (float64_round x)))"
  have lo: "- 2048 \<le> - hi - 1" using assms(2) by simp
  have m: "float64_mul delta (real_of_int hi) = Finite (float64_round x)"
    unfolding x_def using assms(3) by (rule float64_mul_finite)
  have v: "(case py_int_float (float64_mul delta (real_of_int hi)) of
               Inl e \<Rightarrow> Inl e
             | Inr scaled \<Rightarrow> Inr (max (- hi - 1) (min hi scaled))) = Inr q"
    unfolding m q_def by (simp add: py_int_float_def)
  have rng: "- hi - 1 \<le> q \<and> q \<le> hi" unfolding q_def using assms(1) by arith
  have br: "max (- hi - 1) (min hi \<lfloor>x\<rfloor>) \<le> q \<and> q \<le> max (- hi - 1) (min hi \<lceil>x\<rceil>)"
    unfolding q_def using lo assms(2) by (rule trunc_round_bracket)
  have ex: "\<bar>x\<bar> - real_of_int \<lfloor>\<bar>x\<bar>\<rfloor> < 1 - 1 / 2 ^ 43 \<longrightarrow>
      q = max (- hi - 1) (min hi (py_int x))"
    unfolding q_def using trunc_round_exact [OF lo assms(2), of x] by blast
  show ?thesis using v rng br ex unfolding q_def x_def by blast
qed

text \<open>
  Claim C5, as stated, fails twice. The scaled delta is not rounded to the nearest
  integer: at delta 0.125 and 4 bits the product is 0.875, exactly in binary64; the code
  returns 0, rounding to the nearest integer gives 1. And there is an error path: at
  delta \<open>2 ^ 1020\<close> and 8 bits the product overflows to an infinity, of which
  \<open>int(...)\<close> raises \<open>OverflowError\<close>.
\<close>

theorem quantize_delta_float64_counterexample:
  "quantize_delta_float64 0.125 4 = Inr 0 \<and> quantize_spec 0.125 4 = 1
   \<and> quantize_delta_float64 0.125 4 \<noteq> Inr (quantize_spec 0.125 4)
   \<and> quantize_delta_float64 (2 ^ 1020) 8 = Inl OverflowError"
proof -
  have a: "quantize_delta_float64 0.125 4 = Inr 0"
    by (simp add: quantize_delta_float64_widths float64_eval)
  have b: "quantize_spec 0.125 4 = 1" by (simp add: quantize_spec_def round_def)
  have "(8::int) \<in> {4, 8, 12}" by simp
  moreover have "(2::real) ^ 1024 \<le> \<bar>2 ^ 1020\<bar> * real_of_int (2 ^ nat (8 - 1) - 1)"
    by simp
  ultimately have c: "quantize_delta_float64 (2 ^ 1020) 8 = Inl OverflowError"
    by (rule quantize_delta_float64_overflow)
  show ?thesis using a b c by simp
qed

text \<open>
  Claim C5, amended. For every width among 4, 8 and 12 and every delta whose binary64
  product with \<open>max_val = 2^(bits-1) - 1\<close> does not overflow (the exact product is
  below \<open>2 ^ 1024 - 2 ^ 970\<close> in magnitude, as it is for every delta in \<open>[-1, 1]\<close>),
  \<open>quantize_delta\<close> returns that binary64 product truncated toward zero, then clamped
  to \<open>[-(max_val+1), max_val]\<close>. The value lies in that range, between the clamped
  floor and the clamped ceiling of the exact product, and it is the clamped truncation
  of the exact product unless the exact product lies within \<open>2 ^ -43\<close> below an integer
  in magnitude. It is 127 at \<open>(2.0, 8)\<close> and -128 at \<open>(-2.0, 8)\<close>.
\<close>

theorem quantize_delta_float64_truncates:
  "bits \<in> {4, 8, 12} \<Longrightarrow>
   \<bar>delta\<bar> * real_of_int (2 ^ nat (bits - 1) - 1) < 2 ^ 1024 - 2 ^ 970 \<Longrightarrow>
     (\<exists>q. quantize_delta_float64 delta bits = Inr q
        \<and> q = max (- (2 ^ nat (bits - 1))) (min (2 ^ nat (bits - 1) - 1)
                 (py_int (float64_round (delta * real_of_int (2 ^ nat (bits - 1) - 1)))))
        \<and> - (2 ^ nat (bits - 1)) \<le> q \<and> q \<le> 2 ^ nat (bits - 1) - 1
        \<and> max (- (2 ^ nat (bits - 1))) (min (2 ^ nat (bits - 1) - 1)
              \<lfloor>delta * real_of_int (2 ^ nat (bits - 1) - 1)\<rfloor>) \<le> q
        \<and> q \<le> max (- (2 ^ nat (bits - 1))) (min (2 ^ nat (bits - 1) - 1)
                   \<lceil>delta * real_of_int (2 ^ nat (bits - 1) - 1)\<rceil>)
        \<and> (\<bar>delta * real_of_int (2 ^ nat (bits - 1) - 1)\<bar>
              - real_of_int \<lfloor>\<bar>delta * real_of_int (2 ^ nat (bits - 1) - 1)\<bar>\<rfloor>
              < 1 - 1 / 2 ^ 43 \<longrightarrow>
            q = max (- (2 ^ nat (bits - 1))) (min (2 ^ nat (bits - 1) - 1)
                  (py_int (delta * real_of_int (2 ^ nat (bits - 1) - 1))))))
     \<and> quantize_delta_float64 2.0 8 = Inr 127 \<and> quantize_delta_float64 (- 2.0) 8 = Inr (- 128)"
proof -
  assume bits: "bits \<in> {4, 8, 12}"
    and fin: "\<bar>delta\<bar> * real_of_int (2 ^ nat (bits - 1) - 1) < 2 ^ 1024 - 2 ^ 970"
  have sat: "quantize_delta_float64 2.0 8 = Inr 127
      \<and> quantize_delta_float64 (- 2.0) 8 = Inr (- 128)"
    by (simp add: quantize_delta_float64_widths float64_eval)
  consider "bits = 4" | "bits = 8" | "bits = 12" using bits by auto
  then have "\<exists>q. quantize_delta_float64 delta bits = Inr q
        \<and> q = max (- (2 ^ nat (bits - 1))) (min (2 ^ nat (bits - 1) - 1)
                 (py_int (float64_round (delta * real_of_int (2 ^ nat (bits - 1) - 1)))))
        \<and> - (2 ^ nat (bits - 1)) \<le> q \<and> q \<le> 2 ^ nat (bits - 1) - 1
        \<and> max (- (2 ^ nat (bits - 1))) (min (2 ^ nat (bits - 1) - 1)
              \<lfloor>delta * real_of_int (2 ^ nat (bits - 1) - 1)\<rfloor>) \<le> q
        \<and> q \<le> max (- (2 ^ nat (bits - 1))) (min (2 ^ nat (bits - 1) - 1)
                   \<lceil>delta * real_of_int (2 ^ nat (bits - 1) - 1)\<rceil>)
        \<and> (\<bar>delta * real_of_int (2 ^ nat (bits - 1) - 1)\<bar>
              - real_of_int \<lfloor>\<bar>delta * real_of_int (2 ^ nat (bits - 1) - 1)\<bar>\<rfloor>
              < 1 - 1 / 2 ^ 43 \<longrightarrow>
            q = max (- (2 ^ nat (bits - 1))) (min (2 ^ nat (bits - 1) - 1)
                  (py_int (delta * real_of_int (2 ^ nat (bits - 1) - 1)))))"
  proof cases
    case 1
    have f: "\<bar>delta * real_of_int 7\<bar> < 2 ^ 1024 - 2 ^ 970"
      using fin unfolding 1 by (simp add: abs_mult)
    show ?thesis
      using quantize_float64_core [of 7 delta, OF _ _ f]
      unfolding 1 quantize_delta_float64_widths by (simp cong: sum.case_cong)
  next
    case 2
    have f: "\<bar>delta * real_of_int 127\<bar> < 2 ^ 1024 - 2 ^ 970"
      using fin unfolding 2 by (simp add: abs_mult)
    show ?thesis
      using quantize_float64_core [of 127 delta, OF _ _ f]
      unfolding 2 quantize_delta_float64_widths by (simp cong: sum.case_cong)
  next
    case 3
    have f: "\<bar>delta * real_of_int 2047\<bar> < 2 ^ 1024 - 2 ^ 970"
      using fin unfolding 3 by (simp add: abs_mult)
    show ?thesis
      using quantize_float64_core [of 2047 delta, OF _ _ f]
      unfolding 3 quantize_delta_float64_widths by (simp cong: sum.case_cong)
  qed
  then show ?thesis using sat by blast
qed

theorem quantize_delta_float64_truncates_witness:
  "(8::int) \<in> {4, 8, 12}
   \<and> quantize_delta_float64 (567382630219905 / 36028797018963968) 8 = Inr 2
   \<and> \<lfloor>567382630219905 / 36028797018963968 * (127::real)\<rfloor> = 1
   \<and> quantize_delta_float64 0.125 4 = Inr 0
   \<and> quantize_delta_float64 (- 0.99) 4 = Inr (- 6)"
proof -
  have b8: "(8::int) \<in> {4, 8, 12}" and b4: "(4::int) \<in> {4, 8, 12}" by simp_all
  have f1: "\<bar>567382630219905 / 36028797018963968 :: real\<bar> * real_of_int (2 ^ nat (8 - 1) - 1)
      < 2 ^ 1024 - 2 ^ 970" by simp
  have f2: "\<bar>0.125 :: real\<bar> * real_of_int (2 ^ nat (4 - 1) - 1) < 2 ^ 1024 - 2 ^ 970" by simp
  have f3: "\<bar>- 0.99 :: real\<bar> * real_of_int (2 ^ nat (4 - 1) - 1) < 2 ^ 1024 - 2 ^ 970" by simp
  have r: "float64_round (567382630219905 / 36028797018963968
      * real_of_int (2 ^ nat (8 - 1) - 1)) = 2"
    by (simp add: float64_eval)
  obtain q1 where q1: "quantize_delta_float64 (567382630219905 / 36028797018963968) 8 = Inr q1"
    "q1 = max (- (2 ^ nat (8 - 1))) (min (2 ^ nat (8 - 1) - 1)
       (py_int (float64_round (567382630219905 / 36028797018963968
          * real_of_int (2 ^ nat (8 - 1) - 1)))))"
    using quantize_delta_float64_truncates [OF b8 f1] by blast
  have v1: "q1 = 2" unfolding q1(2) r by (simp add: py_int_def)
  obtain q2 where q2: "quantize_delta_float64 0.125 4 = Inr q2"
    "\<bar>0.125 * real_of_int (2 ^ nat (4 - 1) - 1)\<bar>
       - real_of_int \<lfloor>\<bar>0.125 * real_of_int (2 ^ nat (4 - 1) - 1)\<bar>\<rfloor> < 1 - 1 / 2 ^ 43 \<longrightarrow>
     q2 = max (- (2 ^ nat (4 - 1))) (min (2 ^ nat (4 - 1) - 1)
       (py_int (0.125 * real_of_int (2 ^ nat (4 - 1) - 1))))"
    using quantize_delta_float64_truncates [OF b4 f2] by blast
  have v2: "q2 = 0" using q2(2) by (simp add: py_int_def)
  obtain q3 where q3: "quantize_delta_float64 (- 0.99) 4 = Inr q3"
    "\<bar>- 0.99 * real_of_int (2 ^ nat (4 - 1) - 1)\<bar>
       - real_of_int \<lfloor>\<bar>- 0.99 * real_of_int (2 ^ nat (4 - 1) - 1)\<bar>\<rfloor> < 1 - 1 / 2 ^ 43 \<longrightarrow>
     q3 = max (- (2 ^ nat (4 - 1))) (min (2 ^ nat (4 - 1) - 1)
       (py_int (- 0.99 * real_of_int (2 ^ nat (4 - 1) - 1))))"
    using quantize_delta_float64_truncates [OF b4 f3] by blast
  have v3: "q3 = - 6" using q3(2) by (simp add: py_int_def)
  have fl: "\<lfloor>567382630219905 / 36028797018963968 * (127::real)\<rfloor> = 1" by simp
  show ?thesis using q1(1) q2(1) q3(1) fl unfolding v1 v2 v3 by simp
qed

text \<open>
  Where the binary64 quantizer and the quantizer over the reals agree.
\<close>

lemma quantize_delta_float64_exact:
  assumes "bits \<in> {4, 8, 12}"
    and "\<bar>delta\<bar> * real_of_int (2 ^ nat (bits - 1) - 1) < 2 ^ 1024 - 2 ^ 970"
    and "\<bar>delta * real_of_int (2 ^ nat (bits - 1) - 1)\<bar>
           - real_of_int \<lfloor>\<bar>delta * real_of_int (2 ^ nat (bits - 1) - 1)\<bar>\<rfloor> < 1 - 1 / 2 ^ 43"
  shows "quantize_delta_float64 delta bits = quantize_delta delta bits"
proof -
  consider "bits = 4" | "bits = 8" | "bits = 12" using assms(1) by auto
  then show ?thesis
  proof cases
    case 1
    have f: "\<bar>delta * real_of_int 7\<bar> < 2 ^ 1024 - 2 ^ 970"
      using assms(2) unfolding 1 by (simp add: abs_mult)
    have g: "\<bar>delta * real_of_int 7\<bar> - real_of_int \<lfloor>\<bar>delta * real_of_int 7\<bar>\<rfloor> < 1 - 1 / 2 ^ 43"
      using assms(3) unfolding 1 by simp
    have "quantize_delta delta 4 = Inr (max (- 8) (min 7 (py_int (delta * 7))))"
      by (simp add: quantize_delta_def quantization_levels_cases)
    then show ?thesis
      using quantize_float64_core [of 7 delta, OF _ _ f] g
      unfolding 1 quantize_delta_float64_widths by (simp cong: sum.case_cong)
  next
    case 2
    have f: "\<bar>delta * real_of_int 127\<bar> < 2 ^ 1024 - 2 ^ 970"
      using assms(2) unfolding 2 by (simp add: abs_mult)
    have g: "\<bar>delta * real_of_int 127\<bar> - real_of_int \<lfloor>\<bar>delta * real_of_int 127\<bar>\<rfloor>
        < 1 - 1 / 2 ^ 43"
      using assms(3) unfolding 2 by simp
    have "quantize_delta delta 8 = Inr (max (- 128) (min 127 (py_int (delta * 127))))"
      by (simp add: quantize_delta_def quantization_levels_cases)
    then show ?thesis
      using quantize_float64_core [of 127 delta, OF _ _ f] g
      unfolding 2 quantize_delta_float64_widths by (simp cong: sum.case_cong)
  next
    case 3
    have f: "\<bar>delta * real_of_int 2047\<bar> < 2 ^ 1024 - 2 ^ 970"
      using assms(2) unfolding 3 by (simp add: abs_mult)
    have g: "\<bar>delta * real_of_int 2047\<bar> - real_of_int \<lfloor>\<bar>delta * real_of_int 2047\<bar>\<rfloor>
        < 1 - 1 / 2 ^ 43"
      using assms(3) unfolding 3 by simp
    have "quantize_delta delta 12 = Inr (max (- 2048) (min 2047 (py_int (delta * 2047))))"
      by (simp add: quantize_delta_def quantization_levels_cases)
    then show ?thesis
      using quantize_float64_core [of 2047 delta, OF _ _ f] g
      unfolding 3 quantize_delta_float64_widths by (simp cong: sum.case_cong)
  qed
qed

subsection \<open>Two calls of the fixed-width encoder\<close>

lemma quantize_8bit_nth:
  assumes "np_max (map abs audio) = Inr peak" and "quantize_8bit audio dither = Inr q"
    and "i < length audio"
  shows "q ! i = np_clip (np_round (audio ! i * (if peak > 0 then 121 / peak else 127)
                                    + dither i)) (- 128) 127"
proof -
  define scale :: real where "scale = (if peak > 0 then 121 / peak else 127)"
  have sc: "(if peak > 0 then map (\<lambda>x. x * (121.0 / peak)) audio
             else map (\<lambda>x. x * 127.0) audio) = map (\<lambda>x. x * scale) audio"
    by (simp add: scale_def)
  have "q = map (\<lambda>x. np_clip (np_round x) (- 128) 127)
          (map (\<lambda>(x, d). x + d)
             (zip (map (\<lambda>x. x * scale) audio)
                (map dither [0 ..< length (map (\<lambda>x. x * scale) audio)])))"
    using assms(2) unfolding quantize_8bit_def assms(1) sum.case Let_def sc by simp
  then have "q ! i = np_clip (np_round (audio ! i * scale + dither i)) (- 128) 127"
    using assms(3) by simp
  then show ?thesis unfolding scale_def .
qed

lemma np_clip_lipschitz: "\<bar>np_clip a lo hi - np_clip b lo hi\<bar> \<le> \<bar>a - b\<bar>"
  unfolding np_clip_def by arith

lemma np_round_two_draws:
  assumes "- 0.5 \<le> d1 \<and> d1 \<le> 0.5" and "- 0.5 \<le> d2 \<and> d2 \<le> 0.5"
  shows "\<bar>np_round (s + d1) - np_round (s + d2)\<bar> \<le> 2"
proof -
  have a: "\<bar>real_of_int (np_round (s + d1)) - (s + d1)\<bar> \<le> 1 / 2" by (rule np_round_near)
  have b: "\<bar>real_of_int (np_round (s + d2)) - (s + d2)\<bar> \<le> 1 / 2" by (rule np_round_near)
  have "\<bar>real_of_int (np_round (s + d1)) - real_of_int (np_round (s + d2))\<bar> \<le> 2"
    using a b assms by linarith
  then have "real_of_int \<bar>np_round (s + d1) - np_round (s + d2)\<bar> \<le> 2" by simp
  then show ?thesis by linarith
qed

lemma gba_encode_file:
  assumes "quantize_8bit audio dither = Inr q" and "2 \<le> length q" and "length q \<le> 2 ^ 32"
  shows "gba_encode audio dither
           = Inr (magic_FQWT @ [0x5E, 0x1A, 0, 0]
                  @ map (\<lambda>k. word_of_int (drop_bit (8 * k) (int (length q - 1)))) [0, 1, 2, 3]
                  @ [word_of_int (hd q)]
                  @ map word_of_int (map (\<lambda>d. np_clip d (- 128) 127) (np_diff q)))"
proof -
  obtain q0 q1 rest where q: "q = q0 # q1 # rest"
    using assms(2) by (cases q; cases "tl q") auto
  have ne: "map (\<lambda>d. np_clip d (- 128) 127) (np_diff q) \<noteq> []" unfolding q by simp
  have l: "length (map (\<lambda>d. np_clip d (- 128) 127) (np_diff q)) = length q - 1"
    by (simp add: length_np_diff)
  have "int (length q - 1) < 2 ^ 32" using assms(2,3) by simp
  then have c: "uint32_tobytes (int (length q - 1))
      = Inr (map (\<lambda>k. word_of_int (drop_bit (8 * k) (int (length q - 1)))) [0, 1, 2, 3])"
    by (simp add: uint32_tobytes_def)
  show ?thesis
    unfolding gba_encode_def assms(1) sum.case Let_def l
    using ne c by (simp add: q uint32_tobytes_target_sr)
qed

lemma gba_optimized_compression_exact:
  assumes "quantize_8bit audio dither = Inr q" and "2 \<le> length q" and "length q \<le> 2 ^ 32"
    and "\<forall>x \<in> set q. - 128 \<le> x \<and> x \<le> 127"
    and "\<forall>d \<in> set (np_diff q). - 128 \<le> d \<and> d \<le> 127"
  shows "gba_optimized_compression audio dither
           = Inr (6750, map (\<lambda>s. real_of_int s / 127) (butlast q))"
proof -
  obtain q0 qs where qq: "q = q0 # qs" using assms(2) by (cases q) auto
  define ds where "ds = map (\<lambda>d. np_clip d (- 128) 127) (np_diff q)"
  define count :: "byte list" where
    "count = map (\<lambda>k. word_of_int (drop_bit (8 * k) (int (length q - 1)))) [0, 1, 2, 3]"
  have lc: "length count = 4" by (simp add: count_def)
  have enc: "gba_encode audio dither
      = Inr (magic_FQWT @ [0x5E, 0x1A, 0, 0] @ count @ [word_of_int q0] @ map word_of_int ds)"
    using gba_encode_file [OF assms(1,2,3)] unfolding count_def ds_def by (simp add: qq)
  have q0r: "- 128 \<le> q0 \<and> q0 \<le> 127" using assms(4) qq by simp
  have qsr: "\<forall>x \<in> set qs. - 128 \<le> x \<and> x \<le> 127" using assms(4) qq by simp
  have dsr: "\<forall>d \<in> set ds. - 128 \<le> d \<and> d \<le> 127"
    unfolding ds_def using np_clip_range by auto
  have rec: "reconstruct q0 [q0] ds = [q0] @ qs"
    unfolding ds_def qq using qsr assms(5) [unfolded qq] by (rule reconstruct_exact)
  show ?thesis
    unfolding gba_optimized_compression_def enc sum.case
    using gba_decode_container [OF lc q0r dsr] by (simp add: rec qq)
qed

text \<open>
  Claim C9, amended. The fixed-width encoder is deterministic only up to the dither it
  draws. For at least two samples and any two draws within \<open>[-0.5, 0.5]\<close>, both calls
  succeed and write \<open>12 + len(samples)\<close> bytes with the same first 12 bytes (magic,
  sample rate and delta count); corresponding quantized samples differ by at most 2;
  the files are identical when the draws agree on the first \<open>len(samples)\<close> values;
  and when no delta is clipped in either call, both calls reconstruct
  \<open>len(samples) - 1\<close> samples and corresponding reconstructed samples differ by at most
  \<open>2 / 127\<close>.
\<close>

theorem gba_encode_two_calls:
  assumes "2 \<le> length audio" and "length audio \<le> 2 ^ 32"
    and "triangular_draw dither1" and "triangular_draw dither2"
  shows "\<exists>q1 q2 file1 file2.
           quantize_8bit audio dither1 = Inr q1 \<and> quantize_8bit audio dither2 = Inr q2
           \<and> gba_encode audio dither1 = Inr file1 \<and> gba_encode audio dither2 = Inr file2
           \<and> length file1 = 12 + length audio \<and> length file2 = 12 + length audio
           \<and> take 12 file1 = take 12 file2
           \<and> (\<forall>i < length audio. \<bar>q1 ! i - q2 ! i\<bar> \<le> 2)
           \<and> ((\<forall>i < length audio. dither1 i = dither2 i) \<longrightarrow> file1 = file2)
           \<and> ((\<forall>d \<in> set (np_diff q1). - 128 \<le> d \<and> d \<le> 127)
                \<and> (\<forall>d \<in> set (np_diff q2). - 128 \<le> d \<and> d \<le> 127) \<longrightarrow>
               (\<exists>recon1 recon2.
                  gba_optimized_compression audio dither1 = Inr (6750, recon1)
                  \<and> gba_optimized_compression audio dither2 = Inr (6750, recon2)
                  \<and> length recon1 = length audio - 1 \<and> length recon2 = length audio - 1
                  \<and> (\<forall>i < length audio - 1. \<bar>recon1 ! i - recon2 ! i\<bar> \<le> 2 / 127)))"
proof -
  have ne: "audio \<noteq> []" using assms(1) by auto
  obtain q1 peak where q1: "np_max (map abs audio) = Inr peak"
    "quantize_8bit audio dither1 = Inr q1" "length q1 = length audio"
    "\<forall>x \<in> set q1. - 128 \<le> x \<and> x \<le> 127"
    using quantize_8bit_ok [OF ne, of dither1] by blast
  obtain q2 peak2 where q2: "np_max (map abs audio) = Inr peak2"
    "quantize_8bit audio dither2 = Inr q2" "length q2 = length audio"
    "\<forall>x \<in> set q2. - 128 \<le> x \<and> x \<le> 127"
    using quantize_8bit_ok [OF ne, of dither2] by blast
  define scale :: real where "scale = (if peak > 0 then 121 / peak else 127)"
  have l1: "2 \<le> length q1" "length q1 \<le> 2 ^ 32" using assms(1,2) q1(3) by simp_all
  have l2: "2 \<le> length q2" "length q2 \<le> 2 ^ 32" using assms(1,2) q2(3) by simp_all
  define file1 where "file1 = magic_FQWT @ [0x5E, 0x1A, 0, 0]
      @ map (\<lambda>k. word_of_int (drop_bit (8 * k) (int (length q1 - 1)))) [0, 1, 2, 3]
      @ [word_of_int (hd q1) :: byte]
      @ map word_of_int (map (\<lambda>d. np_clip d (- 128) 127) (np_diff q1))"
  define file2 where "file2 = magic_FQWT @ [0x5E, 0x1A, 0, 0]
      @ map (\<lambda>k. word_of_int (drop_bit (8 * k) (int (length q2 - 1)))) [0, 1, 2, 3]
      @ [word_of_int (hd q2) :: byte]
      @ map word_of_int (map (\<lambda>d. np_clip d (- 128) 127) (np_diff q2))"
  have e1: "gba_encode audio dither1 = Inr file1"
    unfolding file1_def using q1(2) l1 by (rule gba_encode_file)
  have e2: "gba_encode audio dither2 = Inr file2"
    unfolding file2_def using q2(2) l2 by (rule gba_encode_file)
  have len1: "length file1 = 12 + length audio"
    using assms(1) by (simp add: file1_def magic_FQWT_def length_np_diff q1(3))
  have len2: "length file2 = 12 + length audio"
    using assms(1) by (simp add: file2_def magic_FQWT_def length_np_diff q2(3))
  have hdr: "take 12 file1 = take 12 file2"
    by (simp add: file1_def file2_def magic_FQWT_def q1(3) q2(3))
  have near: "\<forall>i < length audio. \<bar>q1 ! i - q2 ! i\<bar> \<le> 2"
  proof (intro allI impI)
    fix i assume i: "i < length audio"
    have d1: "- 0.5 \<le> dither1 i \<and> dither1 i \<le> 0.5"
      using assms(3) unfolding triangular_draw_def by blast
    have d2: "- 0.5 \<le> dither2 i \<and> dither2 i \<le> 0.5"
      using assms(4) unfolding triangular_draw_def by blast
    have a: "q1 ! i = np_clip (np_round (audio ! i * scale + dither1 i)) (- 128) 127"
      unfolding scale_def using q1(1,2) i by (rule quantize_8bit_nth)
    have b: "q2 ! i = np_clip (np_round (audio ! i * scale + dither2 i)) (- 128) 127"
      unfolding scale_def using q1(1) q2(2) i by (rule quantize_8bit_nth)
    have "\<bar>q1 ! i - q2 ! i\<bar>
        \<le> \<bar>np_round (audio ! i * scale + dither1 i) - np_round (audio ! i * scale + dither2 i)\<bar>"
      unfolding a b by (rule np_clip_lipschitz)
    also have "\<dots> \<le> 2" using d1 d2 by (rule np_round_two_draws)
    finally show "\<bar>q1 ! i - q2 ! i\<bar> \<le> 2" .
  qed
  have same: "(\<forall>i < length audio. dither1 i = dither2 i) \<longrightarrow> file1 = file2"
  proof
    assume "\<forall>i < length audio. dither1 i = dither2 i"
    then have "quantize_8bit audio dither1 = quantize_8bit audio dither2"
      by (rule quantize_8bit_cong)
    then have "q1 = q2" using q1(2) q2(2) by simp
    then show "file1 = file2" by (simp add: file1_def file2_def)
  qed
  have rec: "(\<forall>d \<in> set (np_diff q1). - 128 \<le> d \<and> d \<le> 127)
      \<and> (\<forall>d \<in> set (np_diff q2). - 128 \<le> d \<and> d \<le> 127) \<longrightarrow>
      (\<exists>recon1 recon2.
         gba_optimized_compression audio dither1 = Inr (6750, recon1)
         \<and> gba_optimized_compression audio dither2 = Inr (6750, recon2)
         \<and> length recon1 = length audio - 1 \<and> length recon2 = length audio - 1
         \<and> (\<forall>i < length audio - 1. \<bar>recon1 ! i - recon2 ! i\<bar> \<le> 2 / 127))"
  proof
    assume nc: "(\<forall>d \<in> set (np_diff q1). - 128 \<le> d \<and> d \<le> 127)
      \<and> (\<forall>d \<in> set (np_diff q2). - 128 \<le> d \<and> d \<le> 127)"
    define recon1 where "recon1 = map (\<lambda>s. real_of_int s / 127) (butlast q1)"
    define recon2 where "recon2 = map (\<lambda>s. real_of_int s / 127) (butlast q2)"
    have c1: "gba_optimized_compression audio dither1 = Inr (6750, recon1)"
      unfolding recon1_def using q1(2) l1 q1(4) nc by (intro gba_optimized_compression_exact) simp_all
    have c2: "gba_optimized_compression audio dither2 = Inr (6750, recon2)"
      unfolding recon2_def using q2(2) l2 q2(4) nc by (intro gba_optimized_compression_exact) simp_all
    have r1: "length recon1 = length audio - 1" by (simp add: recon1_def q1(3))
    have r2: "length recon2 = length audio - 1" by (simp add: recon2_def q2(3))
    have d: "\<forall>i < length audio - 1. \<bar>recon1 ! i - recon2 ! i\<bar> \<le> 2 / 127"
    proof (intro allI impI)
      fix i assume i: "i < length audio - 1"
      then have i1: "i < length (butlast q1)" and i2: "i < length (butlast q2)"
        by (simp_all add: q1(3) q2(3))
      have n: "\<bar>q1 ! i - q2 ! i\<bar> \<le> 2" using near i by simp
      then have "\<bar>real_of_int (q1 ! i) - real_of_int (q2 ! i)\<bar> \<le> 2"
        by (metis of_int_abs of_int_diff of_int_le_iff of_int_numeral)
      then have "\<bar>real_of_int (q1 ! i) / 127 - real_of_int (q2 ! i) / 127\<bar> \<le> 2 / 127"
        by (simp add: diff_divide_distrib [symmetric] del: diff_divide_distrib)
      then show "\<bar>recon1 ! i - recon2 ! i\<bar> \<le> 2 / 127"
        using i1 i2 by (simp add: recon1_def recon2_def nth_butlast)
    qed
    show "\<exists>recon1 recon2.
         gba_optimized_compression audio dither1 = Inr (6750, recon1)
         \<and> gba_optimized_compression audio dither2 = Inr (6750, recon2)
         \<and> length recon1 = length audio - 1 \<and> length recon2 = length audio - 1
         \<and> (\<forall>i < length audio - 1. \<bar>recon1 ! i - recon2 ! i\<bar> \<le> 2 / 127)"
      using c1 c2 r1 r2 d by blast
  qed
  show ?thesis using q1(2) q2(2) e1 e2 len1 len2 hdr near same rec by blast
qed

theorem gba_encode_two_calls_witness:
  "gba_encode [0.5, 0.25, 0.1] (dither_of [0, 0, 0])
     = Inr [70, 81, 87, 84, 94, 26, 0, 0, 2, 0, 0, 0, 121, 195, 220]
   \<and> gba_encode [0.5, 0.25, 0.1] (dither_of [0.4, 0.4, 0.4])
     = Inr [70, 81, 87, 84, 94, 26, 0, 0, 2, 0, 0, 0, 121, 196, 220]
   \<and> gba_optimized_compression [0.5, 0.25, 0.1] (dither_of [0, 0, 0])
     = Inr (6750, [121 / 127, 60 / 127])
   \<and> gba_optimized_compression [0.5, 0.25, 0.1] (dither_of [0.4, 0.4, 0.4])
     = Inr (6750, [121 / 127, 61 / 127])
   \<and> \<bar>[121 / 127, 60 / 127] ! 1 - [121 / 127, 61 / 127 :: real] ! 1\<bar> \<le> 2 / 127
   \<and> gba_encode [0.5, 0.25, 0.1] (dither_of [0, 0, 0, 0.3])
     = gba_encode [0.5, 0.25, 0.1] (dither_of [0, 0, 0])"
proof -
  have a: "2 \<le> length [0.5, 0.25, 0.1 :: real]" by simp
  have b: "length [0.5, 0.25, 0.1 :: real] \<le> 2 ^ 32" by simp
  have t1: "triangular_draw (dither_of [0, 0, 0])" by (simp add: triangular_draw_dither_of)
  have t2: "triangular_draw (dither_of [0.4, 0.4, 0.4])"
    by (simp add: triangular_draw_dither_of)
  have t3: "triangular_draw (dither_of [0, 0, 0, 0.3])"
    by (simp add: triangular_draw_dither_of)
  have k1: "quantize_8bit [0.5, 0.25, 0.1] (dither_of [0, 0, 0]) = Inr [121, 60, 24]"
    by (simp add: gba_defs)
  have k2: "quantize_8bit [0.5, 0.25, 0.1] (dither_of [0.4, 0.4, 0.4]) = Inr [121, 61, 25]"
    by (simp add: gba_defs)
  have g1: "gba_encode [0.5, 0.25, 0.1] (dither_of [0, 0, 0])
      = Inr [70, 81, 87, 84, 94, 26, 0, 0, 2, 0, 0, 0, 121, 195, 220]"
    by (simp add: gba_defs)
  have g2: "gba_encode [0.5, 0.25, 0.1] (dither_of [0.4, 0.4, 0.4])
      = Inr [70, 81, 87, 84, 94, 26, 0, 0, 2, 0, 0, 0, 121, 196, 220]"
    by (simp add: gba_defs)
  have c1: "gba_optimized_compression [0.5, 0.25, 0.1] (dither_of [0, 0, 0])
      = Inr (6750, [121 / 127, 60 / 127])"
    by (simp add: gba_defs)
  have c2: "gba_optimized_compression [0.5, 0.25, 0.1] (dither_of [0.4, 0.4, 0.4])
      = Inr (6750, [121 / 127, 61 / 127])"
    by (simp add: gba_defs)
  have n1: "\<forall>d \<in> set (np_diff [121, 60, 24 :: int]). - 128 \<le> d \<and> d \<le> 127" by simp
  have n2: "\<forall>d \<in> set (np_diff [121, 61, 25 :: int]). - 128 \<le> d \<and> d \<le> 127" by simp
  obtain q1 q2 where r:
    "quantize_8bit [0.5, 0.25, 0.1] (dither_of [0, 0, 0]) = Inr q1"
    "quantize_8bit [0.5, 0.25, 0.1] (dither_of [0.4, 0.4, 0.4]) = Inr q2"
    "(\<forall>d \<in> set (np_diff q1). - 128 \<le> d \<and> d \<le> 127)
       \<and> (\<forall>d \<in> set (np_diff q2). - 128 \<le> d \<and> d \<le> 127) \<longrightarrow>
     (\<exists>recon1 recon2.
        gba_optimized_compression [0.5, 0.25, 0.1] (dither_of [0, 0, 0]) = Inr (6750, recon1)
        \<and> gba_optimized_compression [0.5, 0.25, 0.1] (dither_of [0.4, 0.4, 0.4])
            = Inr (6750, recon2)
        \<and> (\<forall>i < length [0.5, 0.25, 0.1 :: real] - 1. \<bar>recon1 ! i - recon2 ! i\<bar> \<le> 2 / 127))"
    using gba_encode_two_calls [OF a b t1 t2] by blast
  have q1: "q1 = [121, 60, 24]" using r(1) k1 by simp
  have q2: "q2 = [121, 61, 25]" using r(2) k2 by simp
  obtain recon1 recon2 where rc:
    "gba_optimized_compression [0.5, 0.25, 0.1] (dither_of [0, 0, 0]) = Inr (6750, recon1)"
    "gba_optimized_compression [0.5, 0.25, 0.1] (dither_of [0.4, 0.4, 0.4])
       = Inr (6750, recon2)"
    "\<forall>i < length [0.5, 0.25, 0.1 :: real] - 1. \<bar>recon1 ! i - recon2 ! i\<bar> \<le> 2 / 127"
    using r(3) n1 n2 unfolding q1 q2 by blast
  have r1: "recon1 = [121 / 127, 60 / 127]" using rc(1) c1 by simp
  have r2: "recon2 = [121 / 127, 61 / 127]" using rc(2) c2 by simp
  have bd: "\<bar>[121 / 127, 60 / 127] ! 1 - [121 / 127, 61 / 127 :: real] ! 1\<bar> \<le> 2 / 127"
    using spec [OF rc(3), of 1] unfolding r1 r2 by simp
  have ag: "\<forall>i < length [0.5, 0.25, 0.1 :: real].
      dither_of [0, 0, 0, 0.3] i = dither_of [0, 0, 0] i"
    by (simp add: dither_of_def nth_Cons split: nat.splits)
  obtain file3 file1 where s:
    "gba_encode [0.5, 0.25, 0.1] (dither_of [0, 0, 0, 0.3]) = Inr file3"
    "gba_encode [0.5, 0.25, 0.1] (dither_of [0, 0, 0]) = Inr file1"
    "(\<forall>i < length [0.5, 0.25, 0.1 :: real].
        dither_of [0, 0, 0, 0.3] i = dither_of [0, 0, 0] i) \<longrightarrow> file3 = file1"
    using gba_encode_two_calls [OF a b t3 t1] by blast
  have eq: "gba_encode [0.5, 0.25, 0.1] (dither_of [0, 0, 0, 0.3])
      = gba_encode [0.5, 0.25, 0.1] (dither_of [0, 0, 0])"
    using s ag by simp
  show ?thesis using g1 g2 c1 c2 bd eq by blast
qed

text \<open>
  The bound 2 is attained: a scaled sample of 1 is quantized to 0 under the dither -0.5
  and to 2 under the dither 0.5, both ties going to the even integer.
\<close>

lemma quantize_8bit_two_draws_sharp:
  "quantize_8bit [121, 1] (dither_of [0, - 0.5]) = Inr [121, 0]
   \<and> quantize_8bit [121, 1] (dither_of [0, 0.5]) = Inr [121, 2]"
  by (simp add: gba_defs)

end
